theory Spec2Isabelle
  imports Main "HOL-Library.Multiset" "HOL-Library.Char_ord" "HOL-Library.List_Lexorder"
begin

section \<open>codeown: ownership resolution from commit history\<close>

text \<open>
  A shallow embedding of \<^verbatim>\<open>src/lib/config.ts\<close> (class \<^verbatim>\<open>ConfigManager\<close>),
  \<^verbatim>\<open>src/lib/generator.ts\<close> (class \<^verbatim>\<open>CodeOwnersGenerator\<close>) and the control flow of
  \<^verbatim>\<open>runAnalysis\<close> in \<^verbatim>\<open>src/components/CodeOwnersApp.tsx\<close>.

  Conventions.
  \<^item> A JavaScript string is a \<^typ>\<open>string\<close>; \<^verbatim>\<open>length\<close> counts list elements, which
    agrees with JavaScript on ASCII text.
  \<^item> A JavaScript object used as a dictionary (\<^verbatim>\<open>overrides\<close>, \<^verbatim>\<open>defaultOwners\<close>,
    \<^verbatim>\<open>fileStats\<close>, a file's contributors, \<^verbatim>\<open>ownerStats\<close>) is an association list
    holding its own keys once each, in the order \<^verbatim>\<open>Object.keys\<close> enumerates them.
    Keys are assumed not to name members of \<^verbatim>\<open>Object.prototype\<close>.
  \<^item> An optional configuration field is an \<open>option\<close>; numbers of the configuration and
    commit counts are integers.
  \<^item> The glob matcher \<^verbatim>\<open>minimatch\<close> is an external package: every function that
    calls it takes the matcher as its first argument \<open>mm\<close> (path first, pattern second),
    and the theorems hold for every matcher. The locale-aware comparison
    \<^verbatim>\<open>String.prototype.localeCompare\<close> is a parameter \<open>lc\<close> in the same way.
\<close>

subsection \<open>String primitives of the JavaScript runtime\<close>

text \<open>\<^verbatim>\<open>s.startsWith(t)\<close>, \<^verbatim>\<open>s.endsWith(t)\<close> and \<^verbatim>\<open>s.includes(t)\<close>.\<close>

fun startsWith :: "string \<Rightarrow> string \<Rightarrow> bool" where
  "startsWith s [] = True"
| "startsWith [] (c # t) = False"
| "startsWith (x # s) (c # t) = (x = c \<and> startsWith s t)"

definition endsWith :: "string \<Rightarrow> string \<Rightarrow> bool" where
  "endsWith s t = startsWith (rev s) (rev t)"

fun includes_str :: "string \<Rightarrow> string \<Rightarrow> bool" where
  "includes_str [] t = (t = [])"
| "includes_str (x # s) t = (startsWith (x # s) t \<or> includes_str s t)"

text \<open>\<^verbatim>\<open>s.split(c)\<close> for a separator of one character: never the empty list.\<close>

fun split_on :: "char \<Rightarrow> string \<Rightarrow> string list" where
  "split_on c [] = [[]]"
| "split_on c (x # s) =
     (if x = c then [] # split_on c s
      else (case split_on c s of [] \<Rightarrow> [[x]] | y # ys \<Rightarrow> (x # y) # ys))"

text \<open>\<^verbatim>\<open>xs.join(sep)\<close>.\<close>

fun join :: "string \<Rightarrow> string list \<Rightarrow> string" where
  "join sep [] = []"
| "join sep [x] = x"
| "join sep (x # y # ys) = x @ sep @ join sep (y # ys)"

text \<open>\<^verbatim>\<open>s.padEnd(n)\<close>: spaces are appended up to length \<open>n\<close>.\<close>

definition padEnd :: "string \<Rightarrow> nat \<Rightarrow> string" where
  "padEnd s n = s @ replicate (n - length s) (CHR '' '')"

text \<open>ASCII white space, what \<^verbatim>\<open>trim\<close> removes from text of that range.\<close>

definition is_space :: "char \<Rightarrow> bool" where
  "is_space c = (c \<in> {CHR '' '', CHR 0x09, CHR 0x0A, CHR 0x0B, CHR 0x0C, CHR 0x0D})"

definition trim :: "string \<Rightarrow> string" where
  "trim s = rev (dropWhile is_space (rev (dropWhile is_space s)))"

text \<open>Decimal rendering of a number in a template literal.\<close>

definition digit_char :: "nat \<Rightarrow> char" where
  "digit_char d = char_of (48 + d)"

function show_nat :: "nat \<Rightarrow> string" where
  "show_nat n = (if n < 10 then [digit_char n] else show_nat (n div 10) @ [digit_char (n mod 10)])"
  by pat_completeness auto
termination
  by (relation "measure id") auto

declare show_nat.simps [simp del]

definition show_int :: "int \<Rightarrow> string" where
  "show_int i = (if i < 0 then CHR ''-'' # show_nat (nat (- i)) else show_nat (nat i))"

subsection \<open>\<^verbatim>\<open>Array.prototype.sort\<close>\<close>

text \<open>
  \<^verbatim>\<open>xs.sort(cmp)\<close> is a stable sort: with a consistent comparator its result is the one
  arrangement of \<open>xs\<close> that is ordered by \<open>cmp\<close> and keeps equal elements in their input
  order. Insertion from the right computes that arrangement: an element goes in front
  of the first later element it does not compare greater than.
\<close>

fun insort_cmp :: "('a \<Rightarrow> 'a \<Rightarrow> int) \<Rightarrow> 'a \<Rightarrow> 'a list \<Rightarrow> 'a list" where
  "insort_cmp cmp x [] = [x]"
| "insort_cmp cmp x (y # ys) = (if cmp x y \<le> 0 then x # y # ys else y # insort_cmp cmp x ys)"

fun sort_cmp :: "('a \<Rightarrow> 'a \<Rightarrow> int) \<Rightarrow> 'a list \<Rightarrow> 'a list" where
  "sort_cmp cmp [] = []"
| "sort_cmp cmp (x # xs) = insort_cmp cmp x (sort_cmp cmp xs)"

subsection \<open>The configuration (\<^verbatim>\<open>config.ts\<close>)\<close>

type_synonym matcher = "string \<Rightarrow> string \<Rightarrow> bool"

type_synonym owner_table = "(string \<times> string list) list"

record CodeownConfig =
  cfg_members :: "string list option"
  cfg_include :: "string list option"
  cfg_exclude :: "string list option"
  cfg_overrides :: "owner_table option"
  cfg_defaultOwners :: "owner_table option"
  cfg_maxOwners :: "int option"
  cfg_minOwners :: "int option"
  cfg_projectOwners :: "string list option"

text \<open>The configuration of a run without a configuration file: \<^verbatim>\<open>{}\<close>.\<close>

definition emptyConfig :: CodeownConfig where
  "emptyConfig = \<lparr>cfg_members = None, cfg_include = None, cfg_exclude = None,
     cfg_overrides = None, cfg_defaultOwners = None, cfg_maxOwners = None,
     cfg_minOwners = None, cfg_projectOwners = None\<rparr>"

text \<open>\<^verbatim>\<open>this.config.maxOwners || 3\<close>: an absent field and the number 0 both give 3.\<close>

definition getMaxOwners :: "CodeownConfig \<Rightarrow> int" where
  "getMaxOwners cfg = (case cfg_maxOwners cfg of None \<Rightarrow> 3 | Some n \<Rightarrow> if n = 0 then 3 else n)"

definition getMinOwners :: "CodeownConfig \<Rightarrow> int" where
  "getMinOwners cfg = (case cfg_minOwners cfg of None \<Rightarrow> 1 | Some n \<Rightarrow> if n = 0 then 1 else n)"

definition getProjectOwners :: "CodeownConfig \<Rightarrow> string list" where
  "getProjectOwners cfg = (case cfg_projectOwners cfg of None \<Rightarrow> [] | Some os \<Rightarrow> os)"

text \<open>\<^verbatim>\<open>xs.includes(x)\<close> on an array.\<close>

primrec array_includes :: "'a list \<Rightarrow> 'a \<Rightarrow> bool" where
  "array_includes [] x = False"
| "array_includes (y # ys) x = (y = x \<or> array_includes ys x)"

definition shouldIncludeContributor :: "CodeownConfig \<Rightarrow> string \<Rightarrow> string \<Rightarrow> bool" where
  "shouldIncludeContributor cfg email username =
     (case cfg_members cfg of
        None \<Rightarrow> True
      | Some ms \<Rightarrow> if length ms = 0 then True else array_includes ms username \<or> array_includes ms email)"

text \<open>The pattern normalisation written out in both loops of \<^verbatim>\<open>shouldIncludeFile\<close>.\<close>

definition normalizedPattern :: "string \<Rightarrow> string" where
  "normalizedPattern pattern =
     (if endsWith pattern ''/'' then pattern @ ''**/*''
      else if includes_str pattern ''*'' then pattern
      else pattern @ ''/**/*'')"

definition filePatternMatches :: "matcher \<Rightarrow> string \<Rightarrow> string \<Rightarrow> bool" where
  "filePatternMatches mm filepath pattern =
     (mm filepath (normalizedPattern pattern) \<or> mm filepath pattern)"

definition shouldIncludeFile :: "matcher \<Rightarrow> CodeownConfig \<Rightarrow> string \<Rightarrow> bool" where
  "shouldIncludeFile mm cfg filepath =
     (let included =
        (case cfg_include cfg of
           None \<Rightarrow> True
         | Some inc \<Rightarrow> if length inc > 0 then list_ex (filePatternMatches mm filepath) inc else True)
      in if \<not> included then False
         else (case cfg_exclude cfg of
                 None \<Rightarrow> True
               | Some exc \<Rightarrow>
                   if length exc > 0 \<and> list_ex (filePatternMatches mm filepath) exc then False
                   else True))"

definition getPatternSpecificity :: "string \<Rightarrow> int" where
  "getPatternSpecificity pattern =
     (let score0 = (if \<not> includes_str pattern ''*'' \<and> \<not> includes_str pattern ''?'' then 1000 else 0);
          depth = int (length (split_on (CHR ''/'') pattern));
          score1 = score0 + depth * 10;
          wildcards = int (length (filter (\<lambda>c. c = CHR ''*'') pattern));
          score2 = score1 - wildcards * 5
      in if includes_str pattern ''**'' then score2 - 50 else score2)"

text \<open>
  \<^verbatim>\<open>Object.keys(table).sort((a, b) => specificity(b) - specificity(a))\<close>, the ranking
  both lookups compute.
\<close>

definition sortedPatterns :: "owner_table \<Rightarrow> string list" where
  "sortedPatterns tbl =
     sort_cmp (\<lambda>a b. getPatternSpecificity b - getPatternSpecificity a) (map fst tbl)"

text \<open>The loop over the ranked patterns: the first one that matches returns its entry.\<close>

fun firstMatch :: "matcher \<Rightarrow> owner_table \<Rightarrow> string \<Rightarrow> string list \<Rightarrow> string list option" where
  "firstMatch mm tbl filepath [] = None"
| "firstMatch mm tbl filepath (pattern # rest) =
     (if mm filepath pattern then map_of tbl pattern else firstMatch mm tbl filepath rest)"

definition getOverrideOwners :: "matcher \<Rightarrow> CodeownConfig \<Rightarrow> string \<Rightarrow> string list option" where
  "getOverrideOwners mm cfg filepath =
     (case cfg_overrides cfg of
        None \<Rightarrow> None
      | Some tbl \<Rightarrow> firstMatch mm tbl filepath (sortedPatterns tbl))"

definition getDefaultOwners :: "matcher \<Rightarrow> CodeownConfig \<Rightarrow> string \<Rightarrow> string list option" where
  "getDefaultOwners mm cfg filepath =
     (case cfg_defaultOwners cfg of
        None \<Rightarrow> None
      | Some tbl \<Rightarrow> firstMatch mm tbl filepath (sortedPatterns tbl))"

subsection \<open>The generator's state and the version-control collaborator (\<^verbatim>\<open>generator.ts\<close>)\<close>

type_synonym FileContributors = "(string \<times> int) list"

type_synonym FileStats = "(string \<times> FileContributors) list"

type_synonym OwnerStats = "(string \<times> int) list"

text \<open>
  The fields of \<^verbatim>\<open>CodeOwnersGenerator\<close> that the analysis and the generation read or
  write. \<open>gitLogCalls\<close> is a record of the per-file history queries issued so far, kept
  to state properties of the order of effects; no function reads it.
\<close>

record Generator =
  sinceDate :: string
  minCommits :: int
  emailToUsername :: "string \<rightharpoonup> string"
  fileStats :: FileStats
  config :: CodeownConfig
  gitLogCalls :: "string list"

record AnalysisResult =
  ar_filepath :: string
  ar_commits :: int
  ar_contributors :: "string list"

text \<open>\<^verbatim>\<open>obj[k] = v\<close>: an existing key keeps its place, a new key goes last.\<close>

fun obj_set :: "'k \<Rightarrow> 'v \<Rightarrow> ('k \<times> 'v) list \<Rightarrow> ('k \<times> 'v) list" where
  "obj_set k v [] = [(k, v)]"
| "obj_set k v ((k', v') # kvs) = (if k' = k then (k, v) # kvs else (k', v') # obj_set k v kvs)"

text \<open>\<^verbatim>\<open>(obj[k] || 0) + 1\<close> stored back under \<open>k\<close>.\<close>

definition obj_incr :: "string \<Rightarrow> (string \<times> int) list \<Rightarrow> (string \<times> int) list" where
  "obj_incr k kvs = obj_set k ((case map_of kvs k of None \<Rightarrow> 0 | Some n \<Rightarrow> n) + 1) kvs"

text \<open>\<^verbatim>\<open>email.split("@")[0]\<close>, which is also all \<^verbatim>\<open>extractUsername\<close> returns.\<close>

definition localPart :: "string \<Rightarrow> string" where
  "localPart email = (case split_on (CHR ''@'') email of [] \<Rightarrow> [] | x # _ \<Rightarrow> x)"

definition extractUsername :: "string \<Rightarrow> string \<Rightarrow> string" where
  "extractUsername email name = localPart email"

text \<open>\<^verbatim>\<open>this.emailToUsername.get(email) || email.split("@")[0]\<close>: the empty string is falsy.\<close>

definition usernameOf :: "(string \<rightharpoonup> string) \<Rightarrow> string \<Rightarrow> string" where
  "usernameOf e2u email =
     (case e2u email of None \<Rightarrow> localPart email | Some u \<Rightarrow> if u = [] then localPart email else u)"

text \<open>
  \<^verbatim>\<open>path.extname\<close> of a path that does not end in a slash: the text from the last dot of
  the last component, empty when that component has no dot, starts with its only dot,
  or is \<^verbatim>\<open>..\<close>.
\<close>

definition extname :: "string \<Rightarrow> string" where
  "extname p =
     (let base = last (split_on (CHR ''/'') p);
          after = rev (takeWhile (\<lambda>c. c \<noteq> CHR ''.'') (rev base));
          stem = take (length base - length after - 1) base
      in if CHR ''.'' \<notin> set base \<or> stem = [] \<or> base = ''..'' then [] else CHR ''.'' # after)"

definition toLowerCase :: "string \<Rightarrow> string" where
  "toLowerCase s =
     map (\<lambda>c. if CHR ''A'' \<le> c \<and> c \<le> CHR ''Z'' then char_of (of_char c + (32::nat)) else c) s"

definition excludedExtensions :: "string list" where
  "excludedExtensions =
     [''.png'', ''.jpg'', ''.jpeg'', ''.gif'', ''.ico'', ''.pdf'', ''.zip'', ''.tar'',
      ''.gz'', ''.exe'', ''.dll'', ''.so'', ''.dylib'', ''.bin'', ''.obj'', ''.o'']"

text \<open>
  \<^verbatim>\<open>getAllFiles\<close>, from what \<^verbatim>\<open>runGitCommand("ls-files")\<close> returned (the trimmed output,
  empty when the command failed).
\<close>

definition getAllFiles :: "matcher \<Rightarrow> CodeownConfig \<Rightarrow> string \<Rightarrow> string list" where
  "getAllFiles mm cfg output =
     (if output = [] then []
      else filter (\<lambda>file. file \<noteq> []
                     \<and> \<not> array_includes excludedExtensions (toLowerCase (extname file))
                     \<and> shouldIncludeFile mm cfg file)
             (filter (\<lambda>l. l \<noteq> []) (split_on (CHR 0x0A) output)))"

text \<open>
  \<^verbatim>\<open>analyzeFileContributions\<close>, from what \<^verbatim>\<open>runGitCommand\<close> returned for the file's
  history: one line \<^verbatim>\<open>email|name\<close> per commit. It returns the tally and the updated
  \<^verbatim>\<open>emailToUsername\<close>.
\<close>

fun tallyLines :: "string list \<Rightarrow> FileContributors \<times> (string \<rightharpoonup> string)
    \<Rightarrow> FileContributors \<times> (string \<rightharpoonup> string)" where
  "tallyLines [] acc = acc"
| "tallyLines (line # rest) (contributors, e2u) =
     (if \<not> includes_str line ''|'' then tallyLines rest (contributors, e2u)
      else (case split_on (CHR ''|'') line of
              email # name # _ \<Rightarrow>
                if email = [] \<or> name = [] then tallyLines rest (contributors, e2u)
                else tallyLines rest
                       (obj_incr email contributors,
                        if e2u email = None then e2u(email \<mapsto> extractUsername email name) else e2u)
            | _ \<Rightarrow> tallyLines rest (contributors, e2u)))"

definition analyzeFileContributions :: "string \<Rightarrow> (string \<rightharpoonup> string)
    \<Rightarrow> FileContributors \<times> (string \<rightharpoonup> string)" where
  "analyzeFileContributions output e2u =
     (if output = [] then ([], e2u)
      else tallyLines (filter (\<lambda>line. trim line \<noteq> []) (split_on (CHR 0x0A) output)) ([], e2u))"

text \<open>
  \<^verbatim>\<open>analyzeRepository\<close>. \<open>aborted i\<close> is what \<^verbatim>\<open>this.abortSignal?.aborted\<close> reads at the
  top of iteration \<open>i\<close>; \<open>gitLog f\<close> is what the history query for \<open>f\<close> returns. The
  thrown \<^verbatim>\<open>Error\<close> is its message. The progress callback only feeds the display and
  is left out.
\<close>

fun analyzeLoop :: "(nat \<Rightarrow> bool) \<Rightarrow> (string \<Rightarrow> string) \<Rightarrow> nat \<Rightarrow> string list
    \<Rightarrow> AnalysisResult list \<Rightarrow> Generator \<Rightarrow> (string + AnalysisResult list) \<times> Generator" where
  "analyzeLoop aborted gitLog i [] results g = (Inr results, g)"
| "analyzeLoop aborted gitLog i (f # files) results g =
     (if aborted i then (Inl ''Operation aborted'', g)
      else
        (let (contributors, e2u) = analyzeFileContributions (gitLog f) (emailToUsername g);
             g1 = g\<lparr>emailToUsername := e2u, gitLogCalls := gitLogCalls g @ [f]\<rparr>
         in if length contributors > 0
            then analyzeLoop aborted gitLog (Suc i) files
                   (results @ [\<lparr>ar_filepath = f,
                                 ar_commits = sum_list (map snd contributors),
                                 ar_contributors = map (\<lambda>(email, _). usernameOf e2u email) contributors\<rparr>])
                   (g1\<lparr>fileStats := obj_set f contributors (fileStats g1)\<rparr>)
            else analyzeLoop aborted gitLog (Suc i) files results g1))"

definition analyzeRepository :: "matcher \<Rightarrow> (nat \<Rightarrow> bool) \<Rightarrow> string \<Rightarrow> (string \<Rightarrow> string)
    \<Rightarrow> Generator \<Rightarrow> (string + AnalysisResult list) \<times> Generator" where
  "analyzeRepository mm aborted lsFiles gitLog g =
     analyzeLoop aborted gitLog 0 (getAllFiles mm (config g) lsFiles) [] g"

subsection \<open>Owner resolution (\<^verbatim>\<open>generateCodeowners\<close>, the loop over \<^verbatim>\<open>fileStats\<close>)\<close>

text \<open>The contributors admitted by the members filter, most commits first.\<close>

definition validContributors :: "CodeownConfig \<Rightarrow> (string \<rightharpoonup> string) \<Rightarrow> FileContributors
    \<Rightarrow> FileContributors" where
  "validContributors cfg e2u contributors =
     sort_cmp (\<lambda>(_, a) (_, b). b - a)
       (filter (\<lambda>(email, _). shouldIncludeContributor cfg email (usernameOf e2u email))
          contributors)"

text \<open>
  The loop \<^verbatim>\<open>for (i = 0; i < Math.min(maxOwners, validContributors.length); i++)\<close>: of
  the first entries, those with enough commits give their username.
\<close>

definition topOwners :: "int \<Rightarrow> int \<Rightarrow> (string \<rightharpoonup> string) \<Rightarrow> FileContributors \<Rightarrow> string list" where
  "topOwners maxO minC e2u valid =
     map (\<lambda>(email, _). usernameOf e2u email)
       (filter (\<lambda>(_, commitCount). commitCount \<ge> minC)
          (take (nat (min maxO (int (length valid)))) valid))"

text \<open>
  The loop over \<^verbatim>\<open>defaultOwners\<close>: a name not in \<^verbatim>\<open>ownersSet\<close> is pushed and added to
  the set, and the loop breaks once \<^verbatim>\<open>minOwners\<close> is reached.
\<close>

fun addDefaultOwners :: "int \<Rightarrow> string list \<Rightarrow> string list \<times> string set
    \<Rightarrow> string list \<times> string set" where
  "addDefaultOwners minO [] (owners, ownersSet) = (owners, ownersSet)"
| "addDefaultOwners minO (d # ds) (owners, ownersSet) =
     (if d \<notin> ownersSet
      then (if int (length (owners @ [d])) \<ge> minO then (owners @ [d], insert d ownersSet)
            else addDefaultOwners minO ds (owners @ [d], insert d ownersSet))
      else addDefaultOwners minO ds (owners, ownersSet))"

text \<open>The loop over \<^verbatim>\<open>projectOwners\<close>: the same, but \<^verbatim>\<open>ownersSet\<close> is not updated.\<close>

fun addProjectOwners :: "int \<Rightarrow> string list \<Rightarrow> string set \<Rightarrow> string list \<Rightarrow> string list" where
  "addProjectOwners minO [] ownersSet owners = owners"
| "addProjectOwners minO (p # ps) ownersSet owners =
     (if p \<notin> ownersSet
      then (if int (length (owners @ [p])) \<ge> minO then owners @ [p]
            else addProjectOwners minO ps ownersSet (owners @ [p]))
      else addProjectOwners minO ps ownersSet owners)"

text \<open>Lines 288 to 312: supplementing a non-empty list shorter than \<^verbatim>\<open>minOwners\<close>.\<close>

definition supplementOwners :: "matcher \<Rightarrow> CodeownConfig \<Rightarrow> string \<Rightarrow> string list \<Rightarrow> string list" where
  "supplementOwners mm cfg path owners =
     (if length owners > 0 \<and> int (length owners) < getMinOwners cfg
      then
        (let (owners1, ownersSet) =
               (case getDefaultOwners mm cfg path of
                  None \<Rightarrow> (owners, set owners)
                | Some ds \<Rightarrow>
                    if length ds > 0 then addDefaultOwners (getMinOwners cfg) ds (owners, set owners)
                    else (owners, set owners))
         in if int (length owners1) < getMinOwners cfg \<and> length (getProjectOwners cfg) > 0
            then addProjectOwners (getMinOwners cfg) (getProjectOwners cfg) ownersSet owners1
            else owners1)
      else owners)"

text \<open>
  The tally path of one iteration (lines 263 to 317): the owners of a file without
  override; the empty list stands for every \<^verbatim>\<open>continue\<close> and for the final test
  \<^verbatim>\<open>owners.length > 0\<close> failing.
\<close>

definition tallyOwners :: "matcher \<Rightarrow> Generator \<Rightarrow> string \<Rightarrow> FileContributors \<Rightarrow> string list" where
  "tallyOwners mm g path contributors =
     (if length contributors = 0 then []
      else
        (let valid = validContributors (config g) (emailToUsername g) contributors
         in if length valid = 0 then []
            else supplementOwners mm (config g) path
                   (topOwners (getMaxOwners (config g)) (minCommits g) (emailToUsername g) valid)))"

text \<open>One iteration of the loop over \<^verbatim>\<open>Object.entries(this.fileStats)\<close>: the entry pushed, if any.\<close>

definition fileEntry :: "matcher \<Rightarrow> Generator \<Rightarrow> string \<times> FileContributors
    \<Rightarrow> (string \<times> string list) option" where
  "fileEntry mm g = (\<lambda>(path, contributors).
     (case getOverrideOwners mm (config g) path of
        Some overrideOwners \<Rightarrow> Some (path, overrideOwners)
      | None \<Rightarrow>
          (let owners = tallyOwners mm g path contributors
           in if length owners > 0 then Some (path, owners) else None)))"

definition statsEntries :: "matcher \<Rightarrow> Generator \<Rightarrow> (string \<times> string list) list" where
  "statsEntries mm g = List.map_filter (fileEntry mm g) (fileStats g)"

text \<open>
  Lines 320 to 330: with an override table configured, the files of \<^verbatim>\<open>getAllFiles\<close>
  that have no entry in \<^verbatim>\<open>fileStats\<close> and match an override.
\<close>

definition overrideOnlyEntries :: "matcher \<Rightarrow> Generator \<Rightarrow> string list \<Rightarrow> (string \<times> string list) list" where
  "overrideOnlyEntries mm g allFiles =
     (case cfg_overrides (config g) of
        None \<Rightarrow> []
      | Some _ \<Rightarrow>
          List.map_filter
            (\<lambda>path. if map_of (fileStats g) path = None
                    then (case getOverrideOwners mm (config g) path of
                            Some overrideOwners \<Rightarrow> Some (path, overrideOwners)
                          | None \<Rightarrow> None)
                    else None)
            allFiles)"

text \<open>\<^verbatim>\<open>fileOwners\<close> after \<^verbatim>\<open>fileOwners.sort((a, b) => a.filepath.localeCompare(b.filepath))\<close>.\<close>

definition fileOwners :: "matcher \<Rightarrow> (string \<Rightarrow> string \<Rightarrow> int) \<Rightarrow> Generator \<Rightarrow> string list
    \<Rightarrow> (string \<times> string list) list" where
  "fileOwners mm lc g allFiles =
     sort_cmp (\<lambda>a b. lc (fst a) (fst b)) (statsEntries mm g @ overrideOnlyEntries mm g allFiles)"

subsection \<open>Rendering (\<^verbatim>\<open>generateCodeowners\<close>, header and per-file lines)\<close>

definition withMarker :: "string \<Rightarrow> string" where
  "withMarker owner = (if startsWith owner ''@'' then owner else ''@'' @ owner)"

text \<open>
  The header. \<open>date\<close> and \<open>time\<close> are the two readings of the clock,
  \<^verbatim>\<open>new Date().toISOString().split("T")[0]\<close> and \<^verbatim>\<open>new Date().toTimeString().split(" ")[0]\<close>.
\<close>

definition headerLines :: "string \<Rightarrow> string \<Rightarrow> Generator \<Rightarrow> string list" where
  "headerLines date time g =
     [''# Auto-generated CODEOWNERS file based on git history'',
      ''# Generated on '' @ date @ '' '' @ time,
      ''# Analysis period: since '' @ sinceDate g,
      ''# Minimum commits threshold: '' @ show_int (minCommits g)]
     @ (case cfg_members (config g) of None \<Rightarrow> []
        | Some ms \<Rightarrow> [''# Members filter: '' @ join '', '' ms])
     @ (case cfg_overrides (config g) of None \<Rightarrow> []
        | Some tbl \<Rightarrow> [''# Override rules: '' @ show_nat (length tbl) @ '' patterns''])
     @ (case cfg_maxOwners (config g) of None \<Rightarrow> []
        | Some n \<Rightarrow> if n = 0 then [] else [''# Max owners per file: '' @ show_int n])
     @ (case cfg_minOwners (config g) of None \<Rightarrow> []
        | Some n \<Rightarrow> if n = 0 then [] else [''# Min owners per file: '' @ show_int n])
     @ (case cfg_projectOwners (config g) of None \<Rightarrow> []
        | Some ps \<Rightarrow> [''# Project owners (fallback): '' @ join '', '' ps])
     @ [[]]
     @ (if length (getProjectOwners (config g)) > 0
        then [''# Default owners for all files'',
              ''* '' @ join '' '' (map withMarker (getProjectOwners (config g))),
              []]
        else [])"

text \<open>\<^verbatim>\<open>filepath.substring(0, filepath.lastIndexOf("/"))\<close> when the path has a slash, else empty.\<close>

definition fileDirOf :: "string \<Rightarrow> string" where
  "fileDirOf path =
     (if includes_str path ''/'' then rev (drop 1 (dropWhile (\<lambda>c. c \<noteq> CHR ''/'') (rev path)))
      else [])"

fun renderEntries :: "nat \<Rightarrow> (string \<times> string list) list \<Rightarrow> string \<Rightarrow> string list \<Rightarrow> string list" where
  "renderEntries maxPathLength [] currentDir lines = lines"
| "renderEntries maxPathLength ((path, owners) # rest) currentDir lines =
     (let fileDir = fileDirOf path;
          lines1 = (if fileDir \<noteq> currentDir
                    then (if length lines > 5 then lines @ [[]] else lines)
                         @ [if fileDir = [] then ''# Root directory'' else ''# '' @ fileDir @ ''/'']
                    else lines);
          ownersList = join '' '' (map withMarker owners)
      in renderEntries maxPathLength rest fileDir
           (lines1 @ [padEnd path maxPathLength @ '' '' @ ownersList]))"

definition maxPathLength :: "(string \<times> string list) list \<Rightarrow> nat" where
  "maxPathLength entries = min (foldr max (map (\<lambda>e. length (fst e)) entries) 20) 80"

text \<open>
  \<^verbatim>\<open>generateCodeowners\<close>: the lines written, joined by line feeds, and the number
  returned. \<open>allFiles\<close> is what \<^verbatim>\<open>getAllFiles\<close> returns when the override pass calls it.
\<close>

definition codeownersLines :: "matcher \<Rightarrow> (string \<Rightarrow> string \<Rightarrow> int) \<Rightarrow> string \<Rightarrow> string
    \<Rightarrow> Generator \<Rightarrow> string list \<Rightarrow> string list" where
  "codeownersLines mm lc date time g allFiles =
     (let entries = fileOwners mm lc g allFiles
      in renderEntries (maxPathLength entries) entries [] (headerLines date time g))"

definition generateCodeowners :: "matcher \<Rightarrow> (string \<Rightarrow> string \<Rightarrow> int) \<Rightarrow> string \<Rightarrow> string
    \<Rightarrow> Generator \<Rightarrow> string list \<Rightarrow> string \<times> nat" where
  "generateCodeowners mm lc date time g allFiles =
     (join [CHR 0x0A] (codeownersLines mm lc date time g allFiles),
      length (fileOwners mm lc g allFiles))"

subsection \<open>The ownership summary (\<^verbatim>\<open>getOwnershipStats\<close>)\<close>

record OwnershipStats =
  stats :: OwnerStats
  totalFiles :: nat
  uniqueOwners :: nat

text \<open>The loop over an override's owners: each one, without its marker, is counted.\<close>

fun creditOwners :: "string list \<Rightarrow> OwnerStats \<Rightarrow> OwnerStats" where
  "creditOwners [] ownerStats = ownerStats"
| "creditOwners (owner # rest) ownerStats =
     creditOwners rest
       (obj_incr (if startsWith owner ''@'' then drop 1 owner else owner) ownerStats)"

fun statsLoop :: "matcher \<Rightarrow> Generator \<Rightarrow> FileStats \<Rightarrow> OwnerStats \<times> nat \<Rightarrow> OwnerStats \<times> nat" where
  "statsLoop mm g [] acc = acc"
| "statsLoop mm g ((path, contributors) # rest) (ownerStats, tot) =
     (case getOverrideOwners mm (config g) path of
        Some overrideOwners \<Rightarrow>
          statsLoop mm g rest (creditOwners overrideOwners ownerStats, tot + 1)
      | None \<Rightarrow>
          if length contributors = 0 then statsLoop mm g rest (ownerStats, tot)
          else (case validContributors (config g) (emailToUsername g) contributors of
                  [] \<Rightarrow> statsLoop mm g rest (ownerStats, tot)
                | (email, commitCount) # _ \<Rightarrow>
                    if commitCount \<ge> minCommits g
                    then statsLoop mm g rest
                           (obj_incr (usernameOf (emailToUsername g) email) ownerStats, tot + 1)
                    else statsLoop mm g rest (ownerStats, tot)))"

definition getOwnershipStats :: "matcher \<Rightarrow> Generator \<Rightarrow> OwnershipStats" where
  "getOwnershipStats mm g =
     (let (ownerStats, tot) = statsLoop mm g (fileStats g) ([], 0)
      in \<lparr>stats = ownerStats, totalFiles = tot, uniqueOwners = length ownerStats\<rparr>)"

subsection \<open>The run (\<^verbatim>\<open>runAnalysis\<close> in \<^verbatim>\<open>CodeOwnersApp.tsx\<close>)\<close>

datatype phase = Init | Analyzing | Generating | Complete | Error

text \<open>
  What the run reads from outside. \<open>loadConfig\<close> is the outcome of loading the
  configuration (the message of the error thrown, or the configuration);
  \<open>lsFiles\<close> what \<^verbatim>\<open>git ls-files\<close> prints and \<open>gitLog\<close> what the history query prints for
  a file, both as \<^verbatim>\<open>runGitCommand\<close> returns them; \<open>abortRequested = Some k\<close> says that
  \<^verbatim>\<open>abortController.abort()\<close> ran when \<open>k\<close> of the loop's checks of the signal had been
  made (so during the query of file \<open>k - 1\<close>, or before the loop when \<open>k = 0\<close>), and
  \<open>None\<close> that it never ran; \<open>writeFile\<close> is the message of the error of \<^verbatim>\<open>fs.writeFile\<close>,
  if it throws.
\<close>

record Env =
  loadConfig :: "string + CodeownConfig"
  lsFiles :: string
  gitLog :: "string \<Rightarrow> string"
  abortRequested :: "nat option"
  clockDate :: string
  clockTime :: string
  since :: string
  writeFile :: "string option"

text \<open>An aborted signal stays aborted.\<close>

definition signalAborted :: "nat option \<Rightarrow> nat \<Rightarrow> bool" where
  "signalAborted req i = (case req of None \<Rightarrow> False | Some k \<Rightarrow> k \<le> i)"

text \<open>
  Where the run ends: the phase and the error of the last state set, the summary of a
  completed run, the history queries issued, and the text written to the output
  file, if it was written.
\<close>

record RunResult =
  finalPhase :: phase
  finalError :: "string option"
  finalStats :: "OwnershipStats option"
  rulesGenerated :: "nat option"
  queries :: "string list"
  written :: "string option"

text \<open>
  The \<^verbatim>\<open>catch\<close> block: an error whose message is \<^verbatim>\<open>Operation aborted\<close> ends the run
  without a state change, any other sets the phase \<^verbatim>\<open>error\<close>.
\<close>

definition catchError :: "phase \<Rightarrow> string \<Rightarrow> string list \<Rightarrow> RunResult" where
  "catchError current msg qs =
     (if msg = ''Operation aborted''
      then \<lparr>finalPhase = current, finalError = None, finalStats = None,
            rulesGenerated = None, queries = qs, written = None\<rparr>
      else \<lparr>finalPhase = Error, finalError = Some msg, finalStats = None,
            rulesGenerated = None, queries = qs, written = None\<rparr>)"

definition runAnalysis :: "matcher \<Rightarrow> (string \<Rightarrow> string \<Rightarrow> int) \<Rightarrow> Env \<Rightarrow> RunResult" where
  "runAnalysis mm lc env =
     (case loadConfig env of
        Inl msg \<Rightarrow> catchError Init msg []
      | Inr cfg \<Rightarrow>
          (let g0 = \<lparr>sinceDate = since env, minCommits = 1, emailToUsername = Map.empty,
                     fileStats = [], config = cfg, gitLogCalls = []\<rparr>
           in case analyzeRepository mm (signalAborted (abortRequested env)) (lsFiles env)
                     (gitLog env) g0 of
                (Inl msg, g1) \<Rightarrow> catchError Analyzing msg (gitLogCalls g1)
              | (Inr results, g1) \<Rightarrow>
                  (case writeFile env of
                     Some msg \<Rightarrow> catchError Generating msg (gitLogCalls g1)
                   | None \<Rightarrow>
                       (let (content, n) = generateCodeowners mm lc (clockDate env) (clockTime env) g1
                                          (getAllFiles mm cfg (lsFiles env))
                        in \<lparr>finalPhase = Complete, finalError = None,
                             finalStats = Some (getOwnershipStats mm g1),
                             rulesGenerated = Some n, queries = gitLogCalls g1,
                             written = Some content\<rparr>))))"

subsection \<open>A reference glob matcher\<close>

text \<open>
  Modelled from the spec: \<^verbatim>\<open>minimatch\<close> is an external package, not part of the
  sources. The matcher below follows section 4.1 (\<^verbatim>\<open>*\<close> matches within a path segment,
  \<^verbatim>\<open>**\<close> as a whole segment matches across segments, a pattern without wildcards
  matches only the exact path) for patterns made of literal characters, \<^verbatim>\<open>?\<close>, \<^verbatim>\<open>*\<close>
  and \<^verbatim>\<open>**\<close>; wildcards do not match a leading dot of a segment. It serves to run
  the functions above on concrete inputs.
\<close>

fun segMatch :: "string \<Rightarrow> string \<Rightarrow> bool" where
  "segMatch [] [] = True"
| "segMatch [] (x # xs) = False"
| "segMatch (c # p) [] = (c = CHR ''*'' \<and> segMatch p [])"
| "segMatch (c # p) (x # xs) =
     (if c = CHR ''*'' then segMatch p (x # xs) \<or> segMatch (c # p) xs
      else (c = CHR ''?'' \<or> c = x) \<and> segMatch p xs)"

definition partMatch :: "string \<Rightarrow> string \<Rightarrow> bool" where
  "partMatch p f =
     (if CHR ''*'' \<in> set p \<or> CHR ''?'' \<in> set p
      then f \<noteq> [] \<and> \<not> ((startsWith p ''*'' \<or> startsWith p ''?'') \<and> startsWith f ''.'')
           \<and> segMatch p f
      else p = f)"

fun matchOne :: "string list \<Rightarrow> string list \<Rightarrow> bool" where
  "matchOne [] [] = True"
| "matchOne (f # fs) [] = (fs = [] \<and> f = [])"
| "matchOne [] (p # ps) = False"
| "matchOne (f # fs) (p # ps) =
     (if p = ''**''
      then (if ps = [] then list_all (\<lambda>s. \<not> startsWith s ''.'') (f # fs)
            else matchOne (f # fs) ps \<or> (\<not> startsWith f ''.'' \<and> matchOne fs (p # ps)))
      else partMatch p f \<and> matchOne fs ps)"

definition minimatch :: matcher where
  "minimatch path pattern = matchOne (split_on (CHR ''/'') path) (split_on (CHR ''/'') pattern)"

text \<open>Code-unit order as a comparison function, the order of \<^verbatim>\<open>localeCompare\<close> in a
  locale that collates by code unit.\<close>

definition codeUnitCompare :: "string \<Rightarrow> string \<Rightarrow> int" where
  "codeUnitCompare a b = (if a < b then - 1 else if a = b then 0 else 1)"

subsection \<open>Definitions that follow the specification's words\<close>

text \<open>
  The specificity score as section 4.1 of the specification words it: +1000 without
  wildcard characters, +10 per segment, -5 per \<^verbatim>\<open>*\<close>, -50 when some segment is the
  recursive wildcard \<^verbatim>\<open>**\<close>.
\<close>

definition specSpecificity :: "string \<Rightarrow> int" where
  "specSpecificity pattern =
     (if CHR ''*'' \<notin> set pattern \<and> CHR ''?'' \<notin> set pattern then 1000 else 0)
     + 10 * int (length (split_on (CHR ''/'') pattern))
     - 5 * int (count_list pattern (CHR ''*''))
     - (if ''**'' \<in> set (split_on (CHR ''/'') pattern) then 50 else 0)"

subsection \<open>What the summary counts\<close>

text \<open>
  For stating what the summary counts: \<open>creditedOwners\<close> gives, for an entry of the
  loop over \<^verbatim>\<open>fileStats\<close>, the names one such file adds 1 to (every owner of an
  override, without its marker; else the first owner), and \<open>statCount\<close> reads a
  counter of the summary, 0 when the name has none.
\<close>

definition creditedOwners :: "matcher \<Rightarrow> Generator \<Rightarrow> string \<times> string list \<Rightarrow> string list" where
  "creditedOwners mm g = (\<lambda>(path, owners).
     (case getOverrideOwners mm (config g) path of
        Some _ \<Rightarrow> map (\<lambda>owner. if startsWith owner ''@'' then drop 1 owner else owner) owners
      | None \<Rightarrow> take 1 owners))"

definition statCount :: "OwnerStats \<Rightarrow> string \<Rightarrow> int" where
  "statCount st u = (case map_of st u of None \<Rightarrow> 0 | Some n \<Rightarrow> n)"

subsection \<open>Plain patterns and visible paths\<close>

text \<open>
  For stating what a bare directory pattern matches: a plain pattern is made of
  literal characters only (none of the characters of glob syntax), has no empty
  segment, so neither starts nor ends with a slash, no segment \<^verbatim>\<open>.\<close> or \<^verbatim>\<open>..\<close>, and no
  white space at its ends;
  a visible path has no empty segment and no segment that starts with a dot.
\<close>

definition globSyntax :: "char list" where
  "globSyntax = [CHR ''*'', CHR ''?'', CHR ''['', CHR '']'', CHR ''{'', CHR ''}'', CHR ''('', CHR '')'',
     CHR ''!'', CHR ''#'', CHR 0x5C]"

definition plainPattern :: "string \<Rightarrow> bool" where
  "plainPattern pattern =
     (list_all (\<lambda>c. \<not> array_includes globSyntax c) pattern
      \<and> list_all (\<lambda>s. s \<noteq> [] \<and> s \<noteq> ''.'' \<and> s \<noteq> ''..'') (split_on (CHR ''/'') pattern)
      \<and> trim pattern = pattern)"

definition visiblePath :: "string \<Rightarrow> bool" where
  "visiblePath rest = list_all (\<lambda>s. s \<noteq> [] \<and> \<not> startsWith s ''.'') (split_on (CHR ''/'') rest)"

subsection \<open>Example inputs\<close>

text \<open>A generator as the application constructs it, after some analysis.\<close>

definition exGenerator :: "CodeownConfig \<Rightarrow> FileStats \<Rightarrow> Generator" where
  "exGenerator cfg fs = \<lparr>sinceDate = ''2025-01-01'', minCommits = 1, emailToUsername = Map.empty,
     fileStats = fs, config = cfg, gitLogCalls = []\<rparr>"

definition exOverrideConfig :: CodeownConfig where
  "exOverrideConfig = emptyConfig\<lparr>cfg_overrides :=
  Some [(''src/*.yml'', [''ops'']), (''src/secrets.yml'', [''security-team'']), (''**/*'', [''everyone''])]\<rparr>"

definition exMembersConfig :: CodeownConfig where
  "exMembersConfig = emptyConfig\<lparr>cfg_members := Some [''bob''], cfg_minOwners := Some 2,
     cfg_defaultOwners := Some [(''**/*'', [''dora''])], cfg_projectOwners := Some [''lead'']\<rparr>"

definition exIncludeConfig :: CodeownConfig where
  "exIncludeConfig = emptyConfig\<lparr>cfg_include := Some [''src''],
     cfg_overrides := Some [(''src'', [''team''])], cfg_defaultOwners := Some [(''src'', [''team''])]\<rparr>"

definition exWideOverrideConfig :: CodeownConfig where
  "exWideOverrideConfig = emptyConfig\<lparr>cfg_overrides :=
     Some [(''src/secrets.yml'', [''ann'', ''ben'', ''cy'', ''dee''])]\<rparr>"

definition exSupplementConfig :: CodeownConfig where
  "exSupplementConfig = emptyConfig\<lparr>cfg_minOwners := Some 4,
     cfg_defaultOwners := Some [(''src/*.ts'', [''alice'', ''dora''])],
     cfg_projectOwners := Some [''dora'', ''lead'']\<rparr>"

definition exTwoFiles :: FileStats where
  "exTwoFiles = [(''src/a.ts'', [(''alice@x.org'', 5), (''bob@x.org'', 2)]),
                 (''README.md'', [(''bob@x.org'', 1)])]"

text \<open>
  A run on a repository of three tracked files, one of them an image, with the
  cancellation requested as the argument says.
\<close>

definition exEnv :: "nat option \<Rightarrow> Env" where
  "exEnv req = \<lparr>loadConfig = Inr emptyConfig,
     lsFiles = ''README.md'' @ [CHR 0x0A] @ ''logo.png'' @ [CHR 0x0A] @ ''src/a.ts'',
     gitLog = (\<lambda>f. if f = ''src/a.ts''
                    then ''alice@x.org|Alice'' @ [CHR 0x0A] @ ''bob@x.org|Bob'' @ [CHR 0x0A] @ ''alice@x.org|Alice''
                    else if f = ''README.md'' then ''bob@x.org|Bob'' else []),
     abortRequested = req, clockDate = ''2026-01-01'', clockTime = ''10:00:00'',
     since = ''2025-01-01'', writeFile = None\<rparr>"

definition exPairOverrideConfig :: CodeownConfig where
  "exPairOverrideConfig = emptyConfig\<lparr>cfg_overrides := Some [(''src/secrets.yml'', [''@ann'', ''ben''])]\<rparr>"

definition exThreeFiles :: FileStats where
  "exThreeFiles = [(''src/a.ts'', [(''alice@x.org'', 5), (''bob@x.org'', 2)]),
                   (''src/secrets.yml'', [(''bob@x.org'', 1)]),
                   (''README.md'', [(''bob@x.org'', 1), (''alice@x.org'', 1)])]"

definition exDotConfig :: CodeownConfig where
  "exDotConfig = emptyConfig\<lparr>cfg_include := Some [''src'']\<rparr>"

definition exRankConfig :: CodeownConfig where
  "exRankConfig = emptyConfig\<lparr>cfg_overrides :=
     Some [(''src/**.ts'', [''ann'']), (''*/*.t*'', [''ben''])]\<rparr>"


section \<open>Properties\<close>

subsection \<open>Strings and sorting\<close>

lemma startsWith_iff: "startsWith s t \<longleftrightarrow> (\<exists>v. s = t @ v)"
  by (induction s t rule: startsWith.induct) auto

lemma includes_str_iff: "includes_str s t \<longleftrightarrow> (\<exists>u v. s = u @ t @ v)"
proof (induction s)
  case Nil
  then show ?case by auto
next
  case (Cons x s)
  show ?case
  proof
    assume "includes_str (x # s) t"
    then consider "startsWith (x # s) t" | "includes_str s t" by auto
    then show "\<exists>u v. x # s = u @ t @ v"
    proof cases
      case 1
      then obtain v where "x # s = t @ v" by (auto simp: startsWith_iff)
      then have "x # s = [] @ t @ v" by simp
      then show ?thesis by blast
    next
      case 2
      then obtain u v where "s = u @ t @ v" using Cons.IH by auto
      then have "x # s = (x # u) @ t @ v" by simp
      then show ?thesis by blast
    qed
  next
    assume "\<exists>u v. x # s = u @ t @ v"
    then obtain u v where uv: "x # s = u @ t @ v" by auto
    show "includes_str (x # s) t"
    proof (cases u)
      case Nil
      with uv have "startsWith (x # s) t" by (auto simp: startsWith_iff)
      then show ?thesis by simp
    next
      case (Cons y u')
      with uv have "s = u' @ t @ v" by simp
      then have "includes_str s t" using Cons.IH by auto
      then show ?thesis by simp
    qed
  qed
qed

lemma includes_str_char: "includes_str s [c] \<longleftrightarrow> c \<in> set s"
  by (induction s) auto

lemma split_on_nonempty: "split_on c s \<noteq> []"
  by (induction s) (auto split: list.splits)

lemma length_split_on: "length (split_on c s) = Suc (count_list s c)"
  by (induction s) (auto split: list.splits simp: split_on_nonempty)

lemma length_filter_eq_count: "length (filter (\<lambda>x. x = c) s) = count_list s c"
  by (induction s) auto

lemma array_includes_iff: "array_includes xs x \<longleftrightarrow> x \<in> set xs"
  by (induction xs) auto

lemma set_insort_cmp: "set (insort_cmp cmp x xs) = insert x (set xs)"
  by (induction xs) auto

lemma set_sort_cmp: "set (sort_cmp cmp xs) = set xs"
  by (induction xs) (auto simp: set_insort_cmp)

lemma mset_insort_cmp: "mset (insort_cmp cmp x xs) = add_mset x (mset xs)"
  by (induction xs) auto

lemma mset_sort_cmp: "mset (sort_cmp cmp xs) = mset xs"
  by (induction xs) (auto simp: mset_insort_cmp)

lemma length_sort_cmp: "length (sort_cmp cmp xs) = length xs"
  by (metis mset_sort_cmp size_mset)

lemma insort_cmp_key: "insort_cmp (\<lambda>a b. f b - f a) x xs = insort_key (\<lambda>y. - (f y :: int)) x xs"
  by (induction xs) auto

lemma sort_cmp_key: "sort_cmp (\<lambda>a b. f b - f a) xs = sort_key (\<lambda>y. - (f y :: int)) xs"
  by (induction xs) (auto simp: insort_cmp_key sort_key_def)

lemma sorted_wrt_insort_cmp:
  assumes tot: "\<And>a b. cmp a b \<le> 0 \<or> cmp b a \<le> 0"
    and tr: "\<And>a b c. cmp a b \<le> 0 \<Longrightarrow> cmp b c \<le> 0 \<Longrightarrow> cmp a c \<le> 0"
  shows "sorted_wrt (\<lambda>a b. cmp a b \<le> 0) xs \<Longrightarrow> sorted_wrt (\<lambda>a b. cmp a b \<le> 0) (insort_cmp cmp x xs)"
proof (induction xs)
  case Nil
  then show ?case by simp
next
  case (Cons y ys)
  show ?case
  proof (cases "cmp x y \<le> 0")
    case True
    then have "\<forall>z \<in> set ys. cmp x z \<le> 0" using Cons.prems tr by auto
    with True Cons.prems show ?thesis by auto
  next
    case False
    then have "cmp y x \<le> 0" using tot by blast
    with False Cons show ?thesis by (auto simp: set_insort_cmp)
  qed
qed

lemma sorted_wrt_sort_cmp:
  assumes tot: "\<And>a b. cmp a b \<le> 0 \<or> cmp b a \<le> 0"
    and tr: "\<And>a b c. cmp a b \<le> 0 \<Longrightarrow> cmp b c \<le> 0 \<Longrightarrow> cmp a c \<le> 0"
  shows "sorted_wrt (\<lambda>a b. cmp a b \<le> 0) (sort_cmp cmp xs)"
  by (induction xs) (auto intro: sorted_wrt_insort_cmp [OF tot tr])

lemma segment_includes: "t \<in> set (split_on c s) \<Longrightarrow> includes_str s t"
proof (induction s arbitrary: t)
  case Nil
  then show ?case by simp
next
  case (Cons x s)
  show ?case
  proof (cases "x = c")
    case True
    with Cons.prems have "t = [] \<or> t \<in> set (split_on c s)" by auto
    then show ?thesis
    proof
      assume "t = []" then show ?thesis by simp
    next
      assume "t \<in> set (split_on c s)"
      then have "includes_str s t" by (rule Cons.IH)
      then show ?thesis by simp
    qed
  next
    case False
    obtain y ys where sp: "split_on c s = y # ys"
      using split_on_nonempty [of c s] by (cases "split_on c s") auto
    with False Cons.prems have "t = x # y \<or> t \<in> set ys" by auto
    then show ?thesis
    proof
      assume t: "t = x # y"
      have "y \<in> set (split_on c s)" using sp by simp
      then have "includes_str s y" by (rule Cons.IH)
      have "startsWith s y" using sp
      proof (induction s arbitrary: y ys)
        case Nil then show ?case by auto
      next
        case (Cons a s)
        then show ?case by (auto split: if_splits list.splits)
      qed
      with t show ?thesis by simp
    next
      assume "t \<in> set ys"
      with sp have "t \<in> set (split_on c s)" by simp
      then have "includes_str s t" by (rule Cons.IH)
      then show ?thesis by simp
    qed
  qed
qed

lemma getPatternSpecificity_eq:
  "getPatternSpecificity p =
     (if CHR ''*'' \<notin> set p \<and> CHR ''?'' \<notin> set p then 1000 else 0)
     + 10 * int (length (split_on (CHR ''/'') p))
     - 5 * int (count_list p (CHR ''*''))
     - (if includes_str p ''**'' then 50 else 0)"
  by (simp add: getPatternSpecificity_def Let_def includes_str_char length_filter_eq_count)

lemma sortedPatterns_key:
  "sortedPatterns tbl = sort_key (\<lambda>q. - getPatternSpecificity q) (map fst tbl)"
  by (simp add: sortedPatterns_def sort_cmp_key)

subsection \<open>Pattern lookup and the entries of a run\<close>

lemma map_of_key: "p \<in> set (map fst tbl) \<Longrightarrow> map_of tbl p \<noteq> None"
  by (induction tbl) auto

lemma firstMatch_None_iff:
  "set ps \<subseteq> set (map fst tbl) \<Longrightarrow>
   firstMatch mm tbl path ps = None \<longleftrightarrow> (\<forall>p \<in> set ps. \<not> mm path p)"
proof (induction ps)
  case Nil
  then show ?case by simp
next
  case (Cons p ps)
  then have "map_of tbl p \<noteq> None" using map_of_key [of p tbl] by simp
  with Cons show ?case by auto
qed

lemma firstMatch_SomeD:
  "firstMatch mm tbl path ps = Some ows \<Longrightarrow>
   \<exists>pre p post. ps = pre @ p # post \<and> mm path p \<and> (\<forall>q \<in> set pre. \<not> mm path q)
     \<and> map_of tbl p = Some ows"
proof (induction ps)
  case Nil
  then show ?case by simp
next
  case (Cons a ps)
  show ?case
  proof (cases "mm path a")
    case True
    with Cons.prems have "map_of tbl a = Some ows" by simp
    with True have "a # ps = [] @ a # ps \<and> mm path a \<and> (\<forall>q \<in> set []. \<not> mm path q)
       \<and> map_of tbl a = Some ows" by simp
    then show ?thesis by blast
  next
    case False
    with Cons.prems have "firstMatch mm tbl path ps = Some ows" by simp
    then obtain pre p post where h: "ps = pre @ p # post" "mm path p"
      "\<forall>q \<in> set pre. \<not> mm path q" "map_of tbl p = Some ows"
      using Cons.IH by blast
    with False have "a # ps = (a # pre) @ p # post \<and> mm path p
       \<and> (\<forall>q \<in> set (a # pre). \<not> mm path q) \<and> map_of tbl p = Some ows" by simp
    then show ?thesis by blast
  qed
qed

lemma set_sortedPatterns: "set (sortedPatterns tbl) = set (map fst tbl)"
  by (simp add: sortedPatterns_key)

lemma lookup_None_iff:
  "firstMatch mm tbl path (sortedPatterns tbl) = None \<longleftrightarrow> (\<forall>p \<in> set (map fst tbl). \<not> mm path p)"
  using firstMatch_None_iff [of "sortedPatterns tbl" tbl mm path]
  by (simp only: set_sortedPatterns subset_refl simp_thms)

lemma lookup_best:
  assumes "firstMatch mm tbl path (sortedPatterns tbl) = Some ows"
  shows "\<exists>p. p \<in> set (map fst tbl) \<and> (p, ows) \<in> set tbl \<and> mm path p
           \<and> (\<forall>q \<in> set (map fst tbl). mm path q \<longrightarrow> getPatternSpecificity q \<le> getPatternSpecificity p)"
proof -
  obtain pre p post where h: "sortedPatterns tbl = pre @ p # post" "mm path p"
      "\<forall>q \<in> set pre. \<not> mm path q" "map_of tbl p = Some ows"
    using firstMatch_SomeD [OF assms] by blast
  have srt: "sorted (map (\<lambda>q. - getPatternSpecificity q) (pre @ p # post))"
    using h(1) sortedPatterns_key [of tbl] by (metis sorted_sort_key)
  then have post: "\<forall>q \<in> set post. getPatternSpecificity q \<le> getPatternSpecificity p"
    by (auto simp: sorted_append)
  have keys: "set (map fst tbl) = set pre \<union> {p} \<union> set post"
    using h(1) set_sortedPatterns [of tbl] by auto
  have "\<forall>q \<in> set (map fst tbl). mm path q \<longrightarrow> getPatternSpecificity q \<le> getPatternSpecificity p"
    using keys post h(3) by auto
  moreover have "p \<in> set (map fst tbl)" using keys by simp
  moreover have "(p, ows) \<in> set tbl" using h(4) by (rule map_of_SomeD)
  ultimately show ?thesis using h(2) by blast
qed

lemma set_map_filter: "set (List.map_filter f xs) = {y. \<exists>x \<in> set xs. f x = Some y}"
  by (induction xs) (auto simp: List.map_filter_simps split: option.splits)

lemma set_fileOwners:
  "set (fileOwners mm lc g allFiles) = set (statsEntries mm g) \<union> set (overrideOnlyEntries mm g allFiles)"
  by (simp add: fileOwners_def set_sort_cmp)

lemma fileEntry_path: "fileEntry mm g (p, c) = Some (q, os) \<Longrightarrow> q = p"
  by (auto simp: fileEntry_def Let_def split: option.splits if_splits)

lemma statsEntries_D:
  assumes "(path, os) \<in> set (statsEntries mm g)"
  shows "\<exists>contributors. (path, contributors) \<in> set (fileStats g)
           \<and> fileEntry mm g (path, contributors) = Some (path, os)"
proof -
  from assms obtain x where x: "x \<in> set (fileStats g)" "fileEntry mm g x = Some (path, os)"
    by (auto simp: statsEntries_def set_map_filter)
  obtain p c where pc: "x = (p, c)" by (cases x)
  with x(2) have "p = path" using fileEntry_path by blast
  with x pc show ?thesis by blast
qed

lemma overrideOnlyEntries_D:
  "(path, os) \<in> set (overrideOnlyEntries mm g allFiles) \<Longrightarrow>
   getOverrideOwners mm (config g) path = Some os \<and> map_of (fileStats g) path = None \<and> path \<in> set allFiles"
  by (auto simp: overrideOnlyEntries_def set_map_filter split: option.splits if_splits)

lemma map_of_fileStats:
  "distinct (map fst fs) \<Longrightarrow> (path, c) \<in> set fs \<Longrightarrow> (path, c') \<in> set fs \<Longrightarrow> c' = c"
  by (metis map_of_is_SomeI option.inject)

lemma supplementOwners_unchanged:
  "owners = [] \<or> getMinOwners cfg \<le> int (length owners) \<Longrightarrow> supplementOwners mm cfg path owners = owners"
  by (auto simp: supplementOwners_def)

subsection \<open>Selection and supplementation\<close>

lemma length_topOwners: "int (length (topOwners maxO minC e2u valid)) \<le> max 0 maxO"
proof -
  have "length (topOwners maxO minC e2u valid) \<le> length (take (nat (min maxO (int (length valid)))) valid)"
    unfolding topOwners_def length_map by (rule length_filter_le)
  also have "\<dots> \<le> nat (min maxO (int (length valid)))" by simp
  finally show ?thesis by linarith
qed

lemma length_addDefaultOwners:
  "int (length owners) < minO \<Longrightarrow> int (length (fst (addDefaultOwners minO ds (owners, os)))) \<le> minO"
  by (induction ds arbitrary: owners os) auto

lemma length_addProjectOwners:
  "int (length owners) < minO \<Longrightarrow> int (length (addProjectOwners minO ps os owners)) \<le> minO"
  by (induction ps arbitrary: owners) auto

lemma length_supplementOwners:
  "int (length (supplementOwners mm cfg path owners)) \<le> max (int (length owners)) (getMinOwners cfg)"
proof (cases "length owners > 0 \<and> int (length owners) < getMinOwners cfg")
  case False
  then show ?thesis by (auto simp: supplementOwners_def)
next
  case True
  define st where "st = (case getDefaultOwners mm cfg path of
                  None \<Rightarrow> (owners, set owners)
                | Some ds \<Rightarrow>
                    if length ds > 0 then addDefaultOwners (getMinOwners cfg) ds (owners, set owners)
                    else (owners, set owners))"
  have l1: "int (length (fst st)) \<le> getMinOwners cfg"
    using True length_addDefaultOwners [of owners "getMinOwners cfg" _ "set owners"]
    by (auto simp: st_def split: option.splits)
  have "supplementOwners mm cfg path owners =
      (if int (length (fst st)) < getMinOwners cfg \<and> length (getProjectOwners cfg) > 0
       then addProjectOwners (getMinOwners cfg) (getProjectOwners cfg) (snd st) (fst st)
       else fst st)"
    using True by (simp add: supplementOwners_def st_def [symmetric] case_prod_beta)
  then have "int (length (supplementOwners mm cfg path owners)) \<le> getMinOwners cfg"
    using l1 length_addProjectOwners [of "fst st" "getMinOwners cfg"] by auto
  then show ?thesis by simp
qed

lemma length_tallyOwners:
  "int (length (tallyOwners mm g path c)) \<le> max 0 (max (getMaxOwners (config g)) (getMinOwners (config g)))"
proof -
  let ?top = "topOwners (getMaxOwners (config g)) (minCommits g) (emailToUsername g)
                (validContributors (config g) (emailToUsername g) c)"
  have "int (length (supplementOwners mm (config g) path ?top))
      \<le> max (int (length ?top)) (getMinOwners (config g))"
    by (rule length_supplementOwners)
  moreover have "int (length ?top) \<le> max 0 (getMaxOwners (config g))"
    by (rule length_topOwners)
  ultimately show ?thesis by (auto simp: tallyOwners_def Let_def)
qed

lemma fileEntry_tally:
  "getOverrideOwners mm (config g) path = None \<Longrightarrow> fileEntry mm g (path, c) = Some (path, os) \<Longrightarrow>
   os = tallyOwners mm g path c \<and> os \<noteq> []"
  by (auto simp: fileEntry_def Let_def split: if_splits)

lemma entry_without_override:
  assumes "(path, os) \<in> set (fileOwners mm lc g allFiles)"
    and "getOverrideOwners mm (config g) path = None"
  shows "\<exists>c. (path, c) \<in> set (fileStats g) \<and> os = tallyOwners mm g path c \<and> os \<noteq> []"
proof -
  from assms(1) consider "(path, os) \<in> set (statsEntries mm g)"
    | "(path, os) \<in> set (overrideOnlyEntries mm g allFiles)"
    by (auto simp: set_fileOwners)
  then show ?thesis
  proof cases
    case 1
    then obtain c where "(path, c) \<in> set (fileStats g)" "fileEntry mm g (path, c) = Some (path, os)"
      using statsEntries_D by blast
    with fileEntry_tally [OF assms(2)] show ?thesis by blast
  next
    case 2
    then have "getOverrideOwners mm (config g) path = Some os"
      using overrideOnlyEntries_D by blast
    with assms(2) show ?thesis by simp
  qed
qed





subsection \<open>Sorting of entries and rendering\<close>

lemma sorted_wrt_fileOwners:
  assumes tot: "\<forall>a b. lc a b \<le> 0 \<or> lc b a \<le> 0"
    and tr: "\<forall>a b c. lc a b \<le> 0 \<and> lc b c \<le> 0 \<longrightarrow> lc a c \<le> 0"
  shows "sorted_wrt (\<lambda>a b. lc a b \<le> 0) (map fst (fileOwners mm lc g allFiles))"
proof -
  let ?cmp = "\<lambda>a b :: string \<times> string list. lc (fst a) (fst b)"
  have t1: "\<And>a b. ?cmp a b \<le> 0 \<or> ?cmp b a \<le> 0" using tot by blast
  have t2: "\<And>a b c. ?cmp a b \<le> 0 \<Longrightarrow> ?cmp b c \<le> 0 \<Longrightarrow> ?cmp a c \<le> 0" using tr by blast
  have "sorted_wrt (\<lambda>a b. ?cmp a b \<le> 0) (fileOwners mm lc g allFiles)"
    unfolding fileOwners_def using t1 t2 by (rule sorted_wrt_sort_cmp)
  then show ?thesis by (simp add: sorted_wrt_map)
qed

lemma codeUnitCompare_le: "codeUnitCompare a b \<le> 0 \<longleftrightarrow> a \<le> b"
  by (auto simp: codeUnitCompare_def)

lemma renderEntries_suffix:
  "length lines = length lines' \<Longrightarrow>
   \<exists>s. renderEntries w es cur lines = lines @ s \<and> renderEntries w es cur lines' = lines' @ s"
proof (induction es arbitrary: cur lines lines')
  case Nil
  then show ?case by simp
next
  case (Cons e es)
  obtain path owners where e: "e = (path, owners)" by (cases e)
  define a where "a = (if fileDirOf path \<noteq> cur
                    then (if length lines > 5 then [[]] else [])
                         @ [if fileDirOf path = [] then ''# Root directory'' else ''# '' @ fileDirOf path @ ''/'']
                    else [])
                   @ [padEnd path w @ '' '' @ join '' '' (map withMarker owners)]"
  have r1: "renderEntries w (e # es) cur lines = renderEntries w es (fileDirOf path) (lines @ a)"
    by (simp add: e a_def Let_def)
  have r2: "renderEntries w (e # es) cur lines' = renderEntries w es (fileDirOf path) (lines' @ a)"
    using Cons.prems by (simp add: e a_def Let_def)
  have "length (lines @ a) = length (lines' @ a)" using Cons.prems by simp
  from Cons.IH [OF this] obtain s where
    "renderEntries w es (fileDirOf path) (lines @ a) = (lines @ a) @ s"
    "renderEntries w es (fileDirOf path) (lines' @ a) = (lines' @ a) @ s"
    by blast
  with r1 r2 have "renderEntries w (e # es) cur lines = lines @ (a @ s)
      \<and> renderEntries w (e # es) cur lines' = lines' @ (a @ s)" by simp
  then show ?case by blast
qed

subsection \<open>The analysis loop under cancellation\<close>

lemma analyzeLoop_abort:
  "k < length files \<Longrightarrow> aborted (i + k) \<Longrightarrow> \<forall>j < k. \<not> aborted (i + j) \<Longrightarrow>
   fst (analyzeLoop aborted gl i files results g) = Inl ''Operation aborted''
   \<and> gitLogCalls (snd (analyzeLoop aborted gl i files results g)) = gitLogCalls g @ take k files"
proof (induction files arbitrary: i k results g)
  case Nil
  then show ?case by simp
next
  case (Cons f files)
  show ?case
  proof (cases k)
    case 0
    with Cons.prems show ?thesis by simp
  next
    case (Suc k')
    with Cons.prems(3) have na: "\<not> aborted i" by force
    have p1: "k' < length files" using Cons.prems(1) Suc by simp
    have p2: "aborted (Suc i + k')" using Cons.prems(2) Suc by simp
    have p3: "\<forall>j < k'. \<not> aborted (Suc i + j)"
    proof (intro allI impI)
      fix j assume "j < k'"
      then have "Suc j < k" using Suc by simp
      with Cons.prems(3) have "\<not> aborted (i + Suc j)" by blast
      then show "\<not> aborted (Suc i + j)" by simp
    qed
    note ih = Cons.IH [OF p1 p2 p3]
    obtain c e where ce: "analyzeFileContributions (gl f) (emailToUsername g) = (c, e)"
      by (cases "analyzeFileContributions (gl f) (emailToUsername g)")
    show ?thesis
    proof (cases "length c > 0")
      case True
      with na ce Suc show ?thesis by (simp add: ih)
    next
      case False
      with na ce Suc show ?thesis by (simp add: ih)
    qed
  qed
qed

lemma analyzeLoop_cong:
  "\<forall>j < length files. aborted (i + j) = aborted' (i + j) \<Longrightarrow>
   analyzeLoop aborted gl i files results g = analyzeLoop aborted' gl i files results g"
proof (induction files arbitrary: i results g)
  case Nil
  then show ?case by simp
next
  case (Cons f files)
  from Cons.prems have h0: "aborted i = aborted' i" by force
  have hs: "\<forall>j < length files. aborted (Suc i + j) = aborted' (Suc i + j)"
  proof (intro allI impI)
    fix j assume "j < length files"
    then have "Suc j < length (f # files)" by simp
    with Cons.prems have "aborted (i + Suc j) = aborted' (i + Suc j)" by blast
    then show "aborted (Suc i + j) = aborted' (Suc i + j)" by simp
  qed
  show ?case using h0 Cons.IH [OF hs] by (simp add: Let_def split: prod.splits)
qed

lemma signalAborted_first:
  "signalAborted (Some k) (0 + k) \<and> (\<forall>j < k. \<not> signalAborted (Some k) (0 + j))"
  by (simp add: signalAborted_def)

lemma signalAborted_late:
  "n \<le> k \<Longrightarrow> \<forall>j < n. signalAborted (Some k) (0 + j) = signalAborted None (0 + j)"
  by (simp add: signalAborted_def)

subsection \<open>The summary loop\<close>

lemma map_of_obj_set: "map_of (obj_set k v kvs) = (map_of kvs)(k \<mapsto> v)"
  by (induction kvs) (auto simp: fun_eq_iff)

lemma statCount_obj_incr: "statCount (obj_incr k st) u = statCount st u + (if u = k then 1 else 0)"
  by (simp add: statCount_def obj_incr_def map_of_obj_set)

lemma statCount_creditOwners:
  "statCount (creditOwners os st) u
   = statCount st u
     + int (count_list (map (\<lambda>owner. if startsWith owner ''@'' then drop 1 owner else owner) os) u)"
  by (induction os arbitrary: st) (auto simp: statCount_obj_incr)

lemma validContributors_key:
  "validContributors cfg e2u c =
     sort_key (\<lambda>y. - snd y)
       (filter (\<lambda>(email, _). shouldIncludeContributor cfg email (usernameOf e2u email)) c)"
proof -
  have "(\<lambda>(_ :: string, a :: int) (_ :: string, b :: int). b - a) = (\<lambda>x y. snd y - snd x)"
    by (auto simp: fun_eq_iff)
  then show ?thesis by (simp add: validContributors_def sort_cmp_key)
qed

lemma validContributors_head_max:
  assumes "validContributors cfg e2u c = x # rest"
  shows "\<forall>y \<in> set rest. snd y \<le> snd x"
proof -
  have "sorted (map (\<lambda>y. - snd y) (validContributors cfg e2u c))"
    unfolding validContributors_key by (rule sorted_sort_key)
  with assms show ?thesis by auto
qed

lemma addDefaultOwners_prefix: "\<exists>s. fst (addDefaultOwners minO ds (owners, os)) = owners @ s"
proof (induction ds arbitrary: owners os)
  case Nil
  then show ?case by simp
next
  case (Cons d ds)
  from Cons.IH [of "owners @ [d]" "insert d os"] obtain s where
    "fst (addDefaultOwners minO ds (owners @ [d], insert d os)) = owners @ ([d] @ s)" by auto
  with Cons.IH [of owners os] show ?case by auto
qed

lemma addProjectOwners_prefix: "\<exists>s. addProjectOwners minO ps os owners = owners @ s"
proof (induction ps arbitrary: owners)
  case Nil
  then show ?case by simp
next
  case (Cons p ps)
  from Cons.IH [of "owners @ [p]"] obtain s where
    "addProjectOwners minO ps os (owners @ [p]) = owners @ ([p] @ s)" by auto
  with Cons.IH [of owners] show ?case by auto
qed

lemma supplementOwners_prefix: "\<exists>s. supplementOwners mm cfg path owners = owners @ s"
proof (cases "length owners > 0 \<and> int (length owners) < getMinOwners cfg")
  case False
  then show ?thesis by (auto simp: supplementOwners_def)
next
  case True
  define st where "st = (case getDefaultOwners mm cfg path of
                  None \<Rightarrow> (owners, set owners)
                | Some ds \<Rightarrow>
                    if length ds > 0 then addDefaultOwners (getMinOwners cfg) ds (owners, set owners)
                    else (owners, set owners))"
  have "\<exists>s1. fst st = owners @ s1"
  proof (cases "getDefaultOwners mm cfg path")
    case None
    then show ?thesis by (simp add: st_def)
  next
    case (Some ds)
    then show ?thesis
      using addDefaultOwners_prefix [of "getMinOwners cfg" ds owners "set owners"]
      by (simp add: st_def)
  qed
  then obtain s1 where s1: "fst st = owners @ s1" by blast
  obtain s2 where s2: "addProjectOwners (getMinOwners cfg) (getProjectOwners cfg) (snd st) (fst st)
      = fst st @ s2"
    using addProjectOwners_prefix by blast
  have "supplementOwners mm cfg path owners =
      (if int (length (fst st)) < getMinOwners cfg \<and> length (getProjectOwners cfg) > 0
       then addProjectOwners (getMinOwners cfg) (getProjectOwners cfg) (snd st) (fst st)
       else fst st)"
    using True by (simp add: supplementOwners_def st_def [symmetric] case_prod_beta)
  with s1 s2 show ?thesis by auto
qed

lemma topOwners_head:
  assumes "valid = (email, cc) # rest" and "1 \<le> maxO" and "\<forall>y \<in> set rest. snd y \<le> cc"
  shows "(cc \<ge> minC \<longrightarrow> (\<exists>tl. topOwners maxO minC e2u valid = usernameOf e2u email # tl))
       \<and> (\<not> cc \<ge> minC \<longrightarrow> topOwners maxO minC e2u valid = [])"
proof -
  have "nat (min maxO (int (length valid))) = Suc (nat (min maxO (int (length valid))) - 1)"
    using assms(1,2) by simp
  then obtain m where m: "nat (min maxO (int (length valid))) = Suc m" by blast
  have tk: "take (nat (min maxO (int (length valid)))) valid = (email, cc) # take m rest"
    unfolding m using assms(1) by simp
  have low: "filter (\<lambda>(_, commitCount). commitCount \<ge> minC) (take m rest) = []" if "\<not> cc \<ge> minC"
  proof -
    have "\<forall>y \<in> set (take m rest). \<not> snd y \<ge> minC"
      using assms(3) that by (meson in_set_takeD order_trans)
    then show ?thesis by (auto simp: filter_empty_conv)
  qed
  show ?thesis using low by (auto simp: topOwners_def tk)
qed

lemma tallyOwners_head:
  assumes "validContributors (config g) (emailToUsername g) c = (email, cc) # rest"
    and "1 \<le> getMaxOwners (config g)" and "c \<noteq> []"
  shows "(cc \<ge> minCommits g \<longrightarrow>
            (\<exists>tl. tallyOwners mm g path c = usernameOf (emailToUsername g) email # tl))
       \<and> (\<not> cc \<ge> minCommits g \<longrightarrow> tallyOwners mm g path c = [])"
proof -
  let ?top = "topOwners (getMaxOwners (config g)) (minCommits g) (emailToUsername g)
                (validContributors (config g) (emailToUsername g) c)"
  have mx: "\<forall>y \<in> set rest. snd y \<le> cc"
    using validContributors_head_max [OF assms(1)] by simp
  note th = topOwners_head [OF assms(1) assms(2) mx, of "minCommits g" "emailToUsername g"]
  have eq: "tallyOwners mm g path c = supplementOwners mm (config g) path ?top"
    using assms(1,3) by (simp add: tallyOwners_def Let_def)
  obtain s where s: "supplementOwners mm (config g) path ?top = ?top @ s"
    using supplementOwners_prefix by blast
  show ?thesis
  proof (cases "cc \<ge> minCommits g")
    case True
    with th obtain tl where "?top = usernameOf (emailToUsername g) email # tl"
      unfolding assms(1) by blast
    with eq s True show ?thesis by simp
  next
    case False
    with th have "?top = []" unfolding assms(1) by blast
    with eq False show ?thesis by (simp add: supplementOwners_def)
  qed
qed

lemma statsLoop_step:
  assumes "1 \<le> getMaxOwners (config g)"
  shows "\<exists>st' n'. statsLoop mm g ((path, c) # rest) (st, n) = statsLoop mm g rest (st', n')
      \<and> (case fileEntry mm g (path, c) of
            None \<Rightarrow> st' = st \<and> n' = n
          | Some e \<Rightarrow> n' = n + 1
              \<and> (\<forall>u. statCount st' u = statCount st u + int (count_list (creditedOwners mm g e) u)))"
proof (cases "getOverrideOwners mm (config g) path")
  case (Some ows)
  have "statsLoop mm g ((path, c) # rest) (st, n) = statsLoop mm g rest (creditOwners ows st, n + 1)"
    using Some by simp
  moreover have "fileEntry mm g (path, c) = Some (path, ows)"
    using Some by (simp add: fileEntry_def)
  moreover have "\<forall>u. statCount (creditOwners ows st) u
      = statCount st u + int (count_list (creditedOwners mm g (path, ows)) u)"
    using Some by (simp add: creditedOwners_def statCount_creditOwners)
  ultimately show ?thesis by auto
next
  case None
  note nov = None
  show ?thesis
  proof (cases "c = []")
    case True
    have "statsLoop mm g ((path, c) # rest) (st, n) = statsLoop mm g rest (st, n)"
      using nov True by simp
    moreover have "fileEntry mm g (path, c) = None"
      using nov True by (simp add: fileEntry_def tallyOwners_def)
    ultimately show ?thesis by auto
  next
    case False
    show ?thesis
    proof (cases "validContributors (config g) (emailToUsername g) c")
      case Nil
      have "statsLoop mm g ((path, c) # rest) (st, n) = statsLoop mm g rest (st, n)"
        using nov False Nil by simp
      moreover have "fileEntry mm g (path, c) = None"
        using nov False Nil by (simp add: fileEntry_def tallyOwners_def)
      ultimately show ?thesis by auto
    next
      case (Cons x xs)
      obtain email cc where x: "x = (email, cc)" by (cases x)
      note vc = Cons [unfolded x]
      note hd = tallyOwners_head [OF vc assms False, of mm path]
      show ?thesis
      proof (cases "cc \<ge> minCommits g")
        case True
        with hd obtain tl where tl: "tallyOwners mm g path c = usernameOf (emailToUsername g) email # tl"
          by blast
        have "statsLoop mm g ((path, c) # rest) (st, n)
            = statsLoop mm g rest (obj_incr (usernameOf (emailToUsername g) email) st, n + 1)"
          using nov False vc True by simp
        moreover have "fileEntry mm g (path, c) = Some (path, usernameOf (emailToUsername g) email # tl)"
          using nov tl by (simp add: fileEntry_def)
        moreover have "\<forall>u. statCount (obj_incr (usernameOf (emailToUsername g) email) st) u
            = statCount st u
              + int (count_list (creditedOwners mm g (path, usernameOf (emailToUsername g) email # tl)) u)"
          using nov by (simp add: creditedOwners_def statCount_obj_incr)
        ultimately show ?thesis by auto
      next
        case low: False
        with hd have "tallyOwners mm g path c = []" by blast
        then have "fileEntry mm g (path, c) = None"
          using nov by (simp add: fileEntry_def)
        moreover have "statsLoop mm g ((path, c) # rest) (st, n) = statsLoop mm g rest (st, n)"
          using nov False vc low by simp
        ultimately show ?thesis by auto
      qed
    qed
  qed
qed

lemma statsLoop_entries:
  assumes "1 \<le> getMaxOwners (config g)"
  shows "snd (statsLoop mm g fs (st, n)) = n + length (List.map_filter (fileEntry mm g) fs)
       \<and> (\<forall>u. statCount (fst (statsLoop mm g fs (st, n))) u
             = statCount st u
               + (\<Sum>e\<leftarrow>List.map_filter (fileEntry mm g) fs. int (count_list (creditedOwners mm g e) u)))"
proof (induction fs arbitrary: st n)
  case Nil
  then show ?case by (simp add: List.map_filter_simps)
next
  case (Cons f fs)
  obtain path c where f: "f = (path, c)" by (cases f)
  from statsLoop_step [OF assms, of mm path c fs st n] obtain st' n' where
    step: "statsLoop mm g ((path, c) # fs) (st, n) = statsLoop mm g fs (st', n')"
      "case fileEntry mm g (path, c) of
            None \<Rightarrow> st' = st \<and> n' = n
          | Some e \<Rightarrow> n' = n + 1
              \<and> (\<forall>u. statCount st' u = statCount st u + int (count_list (creditedOwners mm g e) u))"
    by blast
  note ih = Cons.IH [of st' n']
  show ?case
  proof (cases "fileEntry mm g (path, c)")
    case None
    with step ih show ?thesis by (simp add: f List.map_filter_simps)
  next
    case (Some e)
    with step ih show ?thesis by (simp add: f List.map_filter_simps)
  qed
qed

subsection \<open>The reference matcher on plain patterns\<close>

lemma split_on_append: "split_on c (a @ c # b) = split_on c a @ split_on c b"
proof (induction a)
  case Nil
  then show ?case by simp
next
  case (Cons x a)
  obtain y ys where "split_on c a = y # ys"
    using split_on_nonempty [of c a] by (cases "split_on c a") auto
  with Cons show ?case by auto
qed

lemma split_on_subset: "s \<in> set (split_on c p) \<Longrightarrow> set s \<subseteq> set p"
proof (induction p arbitrary: s)
  case Nil
  then show ?case by simp
next
  case (Cons x p)
  obtain y ys where sp: "split_on c p = y # ys"
    using split_on_nonempty [of c p] by (cases "split_on c p") auto
  show ?case
  proof (cases "x = c")
    case True
    with Cons.prems have "s = [] \<or> s \<in> set (split_on c p)" by auto
    with Cons.IH show ?thesis by auto
  next
    case False
    with Cons.prems sp have "s = x # y \<or> s \<in> set ys" by auto
    moreover have "set y \<subseteq> set p" using Cons.IH [of y] sp by simp
    moreover have "\<And>t. t \<in> set ys \<Longrightarrow> set t \<subseteq> set p" using Cons.IH sp by simp
    ultimately show ?thesis by auto
  qed
qed

lemma endsWith_slash_segment: "endsWith p ''/'' \<Longrightarrow> [] \<in> set (split_on (CHR ''/'') p)"
proof -
  assume "endsWith p ''/''"
  then obtain v where "rev p = ''/'' @ v" by (auto simp: endsWith_def startsWith_iff)
  then have "p = rev v @ CHR ''/'' # []" by (metis append_Cons append_Nil rev.simps(2) rev_rev_ident rev_singleton_conv)
  then have "split_on (CHR ''/'') p = split_on (CHR ''/'') (rev v) @ [[]]"
    by (simp add: split_on_append)
  then show ?thesis by simp
qed

lemma partMatch_literal: "CHR ''*'' \<notin> set s \<Longrightarrow> CHR ''?'' \<notin> set s \<Longrightarrow> partMatch s f \<longleftrightarrow> s = f"
  by (simp add: partMatch_def)

lemma matchOne_literal_prefix:
  "\<forall>s \<in> set ps. CHR ''*'' \<notin> set s \<and> CHR ''?'' \<notin> set s \<Longrightarrow>
   matchOne (ps @ fs) (ps @ qs) = matchOne fs qs"
proof (induction ps)
  case Nil
  then show ?case by simp
next
  case (Cons s ps)
  then have lit: "CHR ''*'' \<notin> set s" "CHR ''?'' \<notin> set s" by auto
  then have "s \<noteq> ''**''" by auto
  with lit Cons show ?case by (simp add: partMatch_literal)
qed

lemma segMatch_star: "segMatch ''*'' f"
  by (induction f) auto

lemma matchOne_beneath:
  "rest \<noteq> [] \<Longrightarrow> list_all (\<lambda>s. s \<noteq> [] \<and> \<not> startsWith s ''.'') rest \<Longrightarrow>
   matchOne rest [''**'', ''*'']"
proof (induction rest)
  case Nil
  then show ?case by simp
next
  case (Cons f fs)
  show ?case
  proof (cases fs)
    case Nil
    with Cons.prems show ?thesis by (simp add: partMatch_def segMatch_star)
  next
    case (Cons f' fs')
    with Cons.prems Cons.IH show ?thesis by simp
  qed
qed

lemma plainPattern_segments:
  assumes "plainPattern p"
  shows "\<forall>s \<in> set (split_on (CHR ''/'') p). CHR ''*'' \<notin> set s \<and> CHR ''?'' \<notin> set s"
proof
  fix s assume "s \<in> set (split_on (CHR ''/'') p)"
  then have sub: "set s \<subseteq> set p" by (rule split_on_subset)
  have "\<forall>c \<in> set p. \<not> array_includes globSyntax c"
    using assms by (simp add: plainPattern_def list_all_iff)
  then have "CHR ''*'' \<notin> set p \<and> CHR ''?'' \<notin> set p"
    by (auto simp: globSyntax_def)
  with sub show "CHR ''*'' \<notin> set s \<and> CHR ''?'' \<notin> set s" by auto
qed

lemma plainPattern_normalized:
  assumes "plainPattern p"
  shows "normalizedPattern p = p @ ''/**/*''"
proof -
  have "[] \<notin> set (split_on (CHR ''/'') p)"
    using assms by (auto simp: plainPattern_def list_all_iff)
  then have e: "\<not> endsWith p ''/''" using endsWith_slash_segment by blast
  have "\<forall>c \<in> set p. \<not> array_includes globSyntax c"
    using assms by (simp add: plainPattern_def list_all_iff)
  then have "CHR ''*'' \<notin> set p" by (auto simp: globSyntax_def)
  with e show ?thesis by (simp add: normalizedPattern_def includes_str_char)
qed

lemma minimatch_literal: "plainPattern p \<Longrightarrow> minimatch p p"
  using matchOne_literal_prefix [OF plainPattern_segments, of p "[]" "[]"]
  by (simp add: minimatch_def)

lemma minimatch_beneath:
  assumes "plainPattern p" and "visiblePath rest"
  shows "minimatch (p @ ''/'' @ rest) (p @ ''/**/*'')"
proof -
  have r: "matchOne (split_on (CHR ''/'') rest) [''**'', ''*'']"
    using assms(2) split_on_nonempty [of "CHR ''/''" rest]
    by (intro matchOne_beneath) (auto simp: visiblePath_def)
  have "split_on (CHR ''/'') ''**/*'' = [''**'', ''*'']" by simp
  then have "minimatch (p @ ''/'' @ rest) (p @ ''/**/*'')
      = matchOne (split_on (CHR ''/'') p @ split_on (CHR ''/'') rest)
                 (split_on (CHR ''/'') p @ [''**'', ''*''])"
    using split_on_append [of "CHR ''/''" p rest] split_on_append [of "CHR ''/''" p "''**/*''"]
    by (simp add: minimatch_def)
  with r matchOne_literal_prefix [OF plainPattern_segments [OF assms(1)]] show ?thesis by simp
qed

lemma minimatch_not_beneath:
  assumes "plainPattern p" and "visiblePath rest"
  shows "\<not> minimatch (p @ ''/'' @ rest) p"
proof -
  have "minimatch (p @ ''/'' @ rest) p
      = matchOne (split_on (CHR ''/'') p @ split_on (CHR ''/'') rest) (split_on (CHR ''/'') p @ [])"
    using split_on_append [of "CHR ''/''" p rest] by (simp add: minimatch_def)
  also have "\<dots> = matchOne (split_on (CHR ''/'') rest) []"
    by (rule matchOne_literal_prefix [OF plainPattern_segments [OF assms(1)]])
  finally have eq: "minimatch (p @ ''/'' @ rest) p = matchOne (split_on (CHR ''/'') rest) []" .
  obtain f fs where f: "split_on (CHR ''/'') rest = f # fs"
    using split_on_nonempty [of "CHR ''/''" rest] by (cases "split_on (CHR ''/'') rest") auto
  then have "f \<noteq> []" using assms(2) by (simp add: visiblePath_def)
  with eq f show ?thesis by simp
qed

subsection \<open>The two scores, the parts of a supplemented list, the header\<close>

lemma getPatternSpecificity_spec:
  "getPatternSpecificity p =
     specSpecificity p
     - (if includes_str p ''**'' \<and> ''**'' \<notin> set (split_on (CHR ''/'') p) then 50 else 0)"
  using segment_includes [of "''**''" "CHR ''/''" p]
  by (auto simp: getPatternSpecificity_eq specSpecificity_def)






lemma tallyOwners_sinceDate: "tallyOwners mm (g\<lparr>sinceDate := s\<rparr>) path c = tallyOwners mm g path c"
  by (simp add: tallyOwners_def Let_def)

lemma fileEntry_sinceDate: "fileEntry mm (g\<lparr>sinceDate := s\<rparr>) = fileEntry mm g"
  by (auto simp: fileEntry_def tallyOwners_sinceDate fun_eq_iff Let_def split: option.splits)

lemma overrideOnlyEntries_sinceDate:
  "overrideOnlyEntries mm (g\<lparr>sinceDate := s\<rparr>) allFiles = overrideOnlyEntries mm g allFiles"
  by (simp add: overrideOnlyEntries_def split: option.splits cong: if_cong)

lemma fileOwners_sinceDate:
  "fileOwners mm lc (g\<lparr>sinceDate := s\<rparr>) allFiles = fileOwners mm lc g allFiles"
  by (simp add: fileOwners_def statsEntries_def fileEntry_sinceDate overrideOnlyEntries_sinceDate)

lemma headerLines_clock_since:
  "\<exists>h t. headerLines d1 t1 g = h # (''# Generated on '' @ d1 @ '' '' @ t1)
            # (''# Analysis period: since '' @ sinceDate g) # t
       \<and> headerLines d2 t2 (g\<lparr>sinceDate := s2\<rparr>) = h # (''# Generated on '' @ d2 @ '' '' @ t2)
            # (''# Analysis period: since '' @ s2) # t"
  by (simp add: headerLines_def)

lemma codeownersLines_clock_since:
  "(codeownersLines mm lc d1 t1 g allFiles)[1 := l, 2 := l']
   = (codeownersLines mm lc d2 t2 (g\<lparr>sinceDate := s2\<rparr>) allFiles)[1 := l, 2 := l']"
proof -
  obtain h t where h: "headerLines d1 t1 g = h # (''# Generated on '' @ d1 @ '' '' @ t1)
            # (''# Analysis period: since '' @ sinceDate g) # t"
       "headerLines d2 t2 (g\<lparr>sinceDate := s2\<rparr>) = h # (''# Generated on '' @ d2 @ '' '' @ t2)
            # (''# Analysis period: since '' @ s2) # t"
    using headerLines_clock_since by blast
  then have "length (headerLines d1 t1 g) = length (headerLines d2 t2 (g\<lparr>sinceDate := s2\<rparr>))"
    by simp
  from renderEntries_suffix [OF this] obtain s where
    "renderEntries (maxPathLength (fileOwners mm lc g allFiles)) (fileOwners mm lc g allFiles) []
        (headerLines d1 t1 g) = headerLines d1 t1 g @ s"
    "renderEntries (maxPathLength (fileOwners mm lc g allFiles)) (fileOwners mm lc g allFiles) []
        (headerLines d2 t2 (g\<lparr>sinceDate := s2\<rparr>)) = headerLines d2 t2 (g\<lparr>sinceDate := s2\<rparr>) @ s"
    by blast
  then show ?thesis by (simp add: codeownersLines_def Let_def fileOwners_sinceDate h)
qed

subsection \<open>Membership filter\<close>

text \<open>
  C10. \<^verbatim>\<open>shouldIncludeContributor(email, username)\<close> is true exactly when the members
  list is absent or empty, or contains the username, or contains the email. So a
  members list that is present but empty filters nobody, and either of the two
  identity forms admits a contributor.
\<close>

theorem shouldIncludeContributor_iff:
  "shouldIncludeContributor cfg email username \<longleftrightarrow>
     (cfg_members cfg = None \<or> cfg_members cfg = Some [] \<or>
      (\<exists>ms. cfg_members cfg = Some ms \<and> (username \<in> set ms \<or> email \<in> set ms)))"
  by (cases "cfg_members cfg") (auto simp: shouldIncludeContributor_def array_includes_iff)

theorem shouldIncludeContributor_iff_witness:
  "shouldIncludeContributor (emptyConfig\<lparr>cfg_members := Some []\<rparr>) ''bob@x.org'' ''bob''
   \<and> shouldIncludeContributor (emptyConfig\<lparr>cfg_members := Some [''alice'', ''bob@x.org'']\<rparr>) ''bob@x.org'' ''bob''
   \<and> shouldIncludeContributor (emptyConfig\<lparr>cfg_members := Some [''alice'', ''bob'']\<rparr>) ''bob@x.org'' ''bob''
   \<and> \<not> shouldIncludeContributor (emptyConfig\<lparr>cfg_members := Some [''alice'']\<rparr>) ''bob@x.org'' ''bob''"
  using shouldIncludeContributor_iff [of "emptyConfig\<lparr>cfg_members := Some []\<rparr>" "''bob@x.org''" "''bob''"]
    shouldIncludeContributor_iff [of "emptyConfig\<lparr>cfg_members := Some [''alice'', ''bob@x.org'']\<rparr>" "''bob@x.org''" "''bob''"]
    shouldIncludeContributor_iff [of "emptyConfig\<lparr>cfg_members := Some [''alice'', ''bob'']\<rparr>" "''bob@x.org''" "''bob''"]
    shouldIncludeContributor_iff [of "emptyConfig\<lparr>cfg_members := Some [''alice'']\<rparr>" "''bob@x.org''" "''bob''"]
  by (simp add: emptyConfig_def)

subsection \<open>Pattern specificity and ranking\<close>

text \<open>
  C6, as the specification states it, scores -50 for a pattern with a \<^verbatim>\<open>**\<close> segment.
  The code tests for the two characters \<^verbatim>\<open>**\<close> anywhere in the pattern: the pattern
  \<^verbatim>\<open>src/**.ts\<close> has the segments \<^verbatim>\<open>src\<close> and \<^verbatim>\<open>**.ts\<close>, none of which is \<^verbatim>\<open>**\<close>, and
  still loses 50.
\<close>

theorem specificity_counterexample:
  "getPatternSpecificity ''src/**.ts'' = - 40 \<and> specSpecificity ''src/**.ts'' = 10"
  by (simp add: getPatternSpecificity_def specSpecificity_def)

text \<open>
  C6, amended. The score of a pattern is +1000 when it has neither \<^verbatim>\<open>*\<close> nor \<^verbatim>\<open>?\<close>,
  plus 10 times the number of segments between slashes, minus 5 per \<^verbatim>\<open>*\<close>, minus 50
  when \<^verbatim>\<open>**\<close> occurs anywhere in it as a substring; it is the specification's score
  except for a pattern with \<^verbatim>\<open>**\<close> inside a segment only, which scores 50 less. The
  ranked sequence is a rearrangement of the table's keys by descending score, and
  patterns of the same score keep the order the keys are enumerated in.
\<close>

theorem specificity_score_and_stable_ranking:
  "getPatternSpecificity p =
     (if CHR ''*'' \<notin> set p \<and> CHR ''?'' \<notin> set p then 1000 else 0)
     + 10 * int (length (split_on (CHR ''/'') p))
     - 5 * int (count_list p (CHR ''*''))
     - (if (\<exists>u v. p = u @ ''**'' @ v) then 50 else 0)
   \<and> getPatternSpecificity p =
       specSpecificity p
       - (if (\<exists>u v. p = u @ ''**'' @ v) \<and> ''**'' \<notin> set (split_on (CHR ''/'') p) then 50 else 0)
   \<and> mset (sortedPatterns tbl) = mset (map fst tbl)
   \<and> sorted (map (\<lambda>q. - getPatternSpecificity q) (sortedPatterns tbl))
   \<and> filter (\<lambda>q. getPatternSpecificity q = s) (sortedPatterns tbl)
       = filter (\<lambda>q. getPatternSpecificity q = s) (map fst tbl)"
proof -
  have a: "getPatternSpecificity p =
     (if CHR ''*'' \<notin> set p \<and> CHR ''?'' \<notin> set p then 1000 else 0)
     + 10 * int (length (split_on (CHR ''/'') p))
     - 5 * int (count_list p (CHR ''*''))
     - (if (\<exists>u v. p = u @ ''**'' @ v) then 50 else 0)"
    unfolding getPatternSpecificity_eq includes_str_iff ..
  have seg: "''**'' \<in> set (split_on (CHR ''/'') p) \<Longrightarrow> \<exists>u v. p = u @ ''**'' @ v"
    using segment_includes [of "''**''" "CHR ''/''" p] by (simp only: includes_str_iff)
  have b: "getPatternSpecificity p =
       specSpecificity p
       - (if (\<exists>u v. p = u @ ''**'' @ v) \<and> ''**'' \<notin> set (split_on (CHR ''/'') p) then 50 else 0)"
    using seg unfolding a specSpecificity_def by auto
  have c: "mset (sortedPatterns tbl) = mset (map fst tbl)"
    by (simp add: sortedPatterns_key)
  have d: "sorted (map (\<lambda>q. - getPatternSpecificity q) (sortedPatterns tbl))"
    by (simp add: sortedPatterns_key)
  have "filter (\<lambda>q. - getPatternSpecificity q = - s) (sortedPatterns tbl)
       = filter (\<lambda>q. - getPatternSpecificity q = - s) (map fst tbl)"
    unfolding sortedPatterns_key by (rule sort_key_stable)
  then have e: "filter (\<lambda>q. getPatternSpecificity q = s) (sortedPatterns tbl)
       = filter (\<lambda>q. getPatternSpecificity q = s) (map fst tbl)"
    by simp
  from a b c d e show ?thesis by blast
qed

theorem specificity_witness:
  "getPatternSpecificity ''src/**/*.ts'' = - 35
   \<and> getPatternSpecificity ''src/**/*.ts'' = specSpecificity ''src/**/*.ts''
   \<and> sortedPatterns [(''*.md'', [''docs'']), (''src/*.ts'', [''a'']), (''lib/*.ts'', [''b'']), (''src/secrets.yml'', [''sec''])]
       = [''src/secrets.yml'', ''src/*.ts'', ''lib/*.ts'', ''*.md'']"
  using specificity_score_and_stable_ranking [of "''src/**/*.ts''" "[(''*.md'', [''docs'']), (''src/*.ts'', [''a'']), (''lib/*.ts'', [''b'']), (''src/secrets.yml'', [''sec''])]" 15]
  by (simp add: getPatternSpecificity_def specSpecificity_def sortedPatterns_def)

subsection \<open>Overrides\<close>

text \<open>
  C1, as stated, takes the owner list of the matching override pattern of highest
  specificity, the score of the specification. The code ranks by the score it
  computes, which takes 50 off for \<^verbatim>\<open>**\<close> anywhere in a pattern: of \<^verbatim>\<open>src/**.ts\<close> and
  \<^verbatim>\<open>*/*.t*\<close>, which both match \<^verbatim>\<open>src/a.ts\<close>, the first has the higher score of the
  specification (10 against 5), and the entry carries the owners of the second.
\<close>

theorem override_rank_counterexample:
  "minimatch ''src/a.ts'' ''src/**.ts''
   \<and> minimatch ''src/a.ts'' ''*/*.t*''
   \<and> specSpecificity ''src/**.ts'' = 10
   \<and> specSpecificity ''*/*.t*'' = 5
   \<and> fileOwners minimatch codeUnitCompare
        (exGenerator exRankConfig [(''src/a.ts'', [(''alice@x.org'', 5)])]) []
      = [(''src/a.ts'', [''ben''])]"
  by code_simp

text \<open>
  C1, amended. When an override pattern matches a path, the entry of that path carries
  an override's configured owner list, element for element: whatever the file's
  tally is, the loop over \<^verbatim>\<open>fileStats\<close> pushes that list; every entry of the path in the
  sorted result has it; and the list is the one configured for a matching pattern
  whose score, as the code computes it, no other matching pattern exceeds. When no
  configured pattern has \<^verbatim>\<open>**\<close> inside a segment only, no other matching pattern
  exceeds its score of the specification either.
\<close>

theorem override_owners_verbatim:
  assumes "getOverrideOwners mm (config g) path = Some ows"
  shows "(\<forall>contributors. fileEntry mm g (path, contributors) = Some (path, ows))
       \<and> (\<forall>os. (path, os) \<in> set (fileOwners mm lc g allFiles) \<longrightarrow> os = ows)
       \<and> (\<exists>tbl p. cfg_overrides (config g) = Some tbl \<and> (p, ows) \<in> set tbl \<and> mm path p
            \<and> (\<forall>q \<in> set (map fst tbl). mm path q \<longrightarrow>
                  getPatternSpecificity q \<le> getPatternSpecificity p)
            \<and> ((\<forall>q \<in> set (map fst tbl). includes_str q ''**'' \<longrightarrow>
                    ''**'' \<in> set (split_on (CHR ''/'') q)) \<longrightarrow>
                (\<forall>q \<in> set (map fst tbl). mm path q \<longrightarrow>
                    specSpecificity q \<le> specSpecificity p)))"
proof -
  have a: "\<forall>contributors. fileEntry mm g (path, contributors) = Some (path, ows)"
    using assms by (simp add: fileEntry_def)
  have b: "\<forall>os. (path, os) \<in> set (fileOwners mm lc g allFiles) \<longrightarrow> os = ows"
  proof (intro allI impI)
    fix os assume "(path, os) \<in> set (fileOwners mm lc g allFiles)"
    then consider "(path, os) \<in> set (statsEntries mm g)"
      | "(path, os) \<in> set (overrideOnlyEntries mm g allFiles)"
      by (auto simp: set_fileOwners)
    then show "os = ows"
    proof cases
      case 1
      then obtain c where "fileEntry mm g (path, c) = Some (path, os)"
        using statsEntries_D by blast
      with a show ?thesis by simp
    next
      case 2
      then have "getOverrideOwners mm (config g) path = Some os"
        using overrideOnlyEntries_D by blast
      with assms show ?thesis by simp
    qed
  qed
  obtain tbl where tbl: "cfg_overrides (config g) = Some tbl"
      "firstMatch mm tbl path (sortedPatterns tbl) = Some ows"
    using assms by (auto simp: getOverrideOwners_def split: option.splits)
  from lookup_best [OF tbl(2)] obtain p where p: "p \<in> set (map fst tbl)" "(p, ows) \<in> set tbl"
      "mm path p"
      "\<forall>q \<in> set (map fst tbl). mm path q \<longrightarrow> getPatternSpecificity q \<le> getPatternSpecificity p"
    by blast
  have sp: "\<forall>q \<in> set (map fst tbl). mm path q \<longrightarrow> specSpecificity q \<le> specSpecificity p"
    if seg: "\<forall>q \<in> set (map fst tbl). includes_str q ''**'' \<longrightarrow> ''**'' \<in> set (split_on (CHR ''/'') q)"
  proof (intro ballI impI)
    fix q assume q: "q \<in> set (map fst tbl)" "mm path q"
    have "includes_str q ''**'' \<longrightarrow> ''**'' \<in> set (split_on (CHR ''/'') q)"
      using seg q(1) by blast
    then have "getPatternSpecificity q = specSpecificity q"
      by (simp add: getPatternSpecificity_spec)
    moreover have "includes_str p ''**'' \<longrightarrow> ''**'' \<in> set (split_on (CHR ''/'') p)"
      using seg p(1) by blast
    then have "getPatternSpecificity p = specSpecificity p"
      by (simp add: getPatternSpecificity_spec)
    moreover have "getPatternSpecificity q \<le> getPatternSpecificity p" using p(4) q by blast
    ultimately show "specSpecificity q \<le> specSpecificity p" by linarith
  qed
  from tbl(1) p sp
  have c: "\<exists>tbl p. cfg_overrides (config g) = Some tbl \<and> (p, ows) \<in> set tbl \<and> mm path p
            \<and> (\<forall>q \<in> set (map fst tbl). mm path q \<longrightarrow>
                  getPatternSpecificity q \<le> getPatternSpecificity p)
            \<and> ((\<forall>q \<in> set (map fst tbl). includes_str q ''**'' \<longrightarrow>
                    ''**'' \<in> set (split_on (CHR ''/'') q)) \<longrightarrow>
                (\<forall>q \<in> set (map fst tbl). mm path q \<longrightarrow>
                    specSpecificity q \<le> specSpecificity p))"
    by blast
  from a b c show ?thesis by blast
qed

theorem override_owners_verbatim_witness:
  "getOverrideOwners minimatch (config (exGenerator exOverrideConfig [(''src/secrets.yml'', [(''alice@x.org'', 5)])]))
       ''src/secrets.yml'' = Some [''security-team'']
   \<and> fileOwners minimatch codeUnitCompare (exGenerator exOverrideConfig [(''src/secrets.yml'', [(''alice@x.org'', 5)])]) []
       = [(''src/secrets.yml'', [''security-team''])]"
proof -
  have h: "getOverrideOwners minimatch (config (exGenerator exOverrideConfig [(''src/secrets.yml'', [(''alice@x.org'', 5)])]))
       ''src/secrets.yml'' = Some [''security-team'']"
    by code_simp
  have e: "fileOwners minimatch codeUnitCompare (exGenerator exOverrideConfig [(''src/secrets.yml'', [(''alice@x.org'', 5)])]) []
       = [(''src/secrets.yml'', [''security-team''])]"
    by code_simp
  from override_owners_verbatim [OF h] h e show ?thesis by blast
qed

subsection \<open>Files without a selected owner\<close>

text \<open>
  C5. A file that matches no override and whose selection from the tally (members
  filter, sort by commit count, cap at \<^verbatim>\<open>maxOwners\<close>, commit threshold) is empty gets
  no entry: the loop over \<^verbatim>\<open>fileStats\<close> pushes nothing for it, and with one tally per
  path the sorted result has no entry of that path, whatever the default and project
  owners are. Supplementation changes a list only when the list is non-empty and
  shorter than \<^verbatim>\<open>minOwners\<close>.
\<close>

theorem no_entry_when_selection_empty:
  assumes "getOverrideOwners mm (config g) path = None"
    and "topOwners (getMaxOwners (config g)) (minCommits g) (emailToUsername g)
           (validContributors (config g) (emailToUsername g) contributors) = []"
  shows "fileEntry mm g (path, contributors) = None
       \<and> ((path, contributors) \<in> set (fileStats g) \<and> distinct (map fst (fileStats g))
            \<longrightarrow> path \<notin> fst ` set (fileOwners mm lc g allFiles))
       \<and> (\<forall>p owners. supplementOwners mm (config g) p owners \<noteq> owners
            \<longrightarrow> owners \<noteq> [] \<and> int (length owners) < getMinOwners (config g))"
proof -
  have sel: "tallyOwners mm g path contributors = []"
    using assms(2) by (simp add: tallyOwners_def Let_def supplementOwners_def)
  have a: "fileEntry mm g (path, contributors) = None"
    using assms(1) sel by (simp add: fileEntry_def)
  have b: "path \<notin> fst ` set (fileOwners mm lc g allFiles)"
    if mem: "(path, contributors) \<in> set (fileStats g)" and dist: "distinct (map fst (fileStats g))"
  proof
    assume "path \<in> fst ` set (fileOwners mm lc g allFiles)"
    then obtain os where "(path, os) \<in> set (fileOwners mm lc g allFiles)" by auto
    then consider "(path, os) \<in> set (statsEntries mm g)"
      | "(path, os) \<in> set (overrideOnlyEntries mm g allFiles)"
      by (auto simp: set_fileOwners)
    then show False
    proof cases
      case 1
      then obtain c where c: "(path, c) \<in> set (fileStats g)"
          "fileEntry mm g (path, c) = Some (path, os)"
        using statsEntries_D by blast
      from map_of_fileStats [OF dist mem c(1)] have "c = contributors" .
      with c(2) a show False by simp
    next
      case 2
      then have "getOverrideOwners mm (config g) path = Some os"
        using overrideOnlyEntries_D by blast
      with assms(1) show False by simp
    qed
  qed
  have c: "\<forall>p owners. supplementOwners mm (config g) p owners \<noteq> owners
            \<longrightarrow> owners \<noteq> [] \<and> int (length owners) < getMinOwners (config g)"
    using supplementOwners_unchanged [of _ "config g" mm] by (metis not_le)
  from a b c show ?thesis by blast
qed

theorem no_entry_when_selection_empty_witness:
  "getOverrideOwners minimatch (config (exGenerator exMembersConfig [(''src/a.ts'', [(''alice@x.org'', 5)])])) ''src/a.ts'' = None
   \<and> getDefaultOwners minimatch exMembersConfig ''src/a.ts'' = Some [''dora'']
   \<and> getProjectOwners exMembersConfig = [''lead'']
   \<and> fileEntry minimatch (exGenerator exMembersConfig [(''src/a.ts'', [(''alice@x.org'', 5)])]) (''src/a.ts'', [(''alice@x.org'', 5)]) = None
   \<and> fileOwners minimatch codeUnitCompare (exGenerator exMembersConfig [(''src/a.ts'', [(''alice@x.org'', 5)])]) [''src/a.ts''] = []"
proof -
  let ?g = "exGenerator exMembersConfig [(''src/a.ts'', [(''alice@x.org'', 5)])]"
  have h1: "getOverrideOwners minimatch (config ?g) ''src/a.ts'' = None"
    by code_simp
  have h2: "topOwners (getMaxOwners (config ?g)) (minCommits ?g) (emailToUsername ?g)
           (validContributors (config ?g) (emailToUsername ?g) [(''alice@x.org'', 5)]) = []"
    by code_simp
  have d: "getDefaultOwners minimatch exMembersConfig ''src/a.ts'' = Some [''dora'']"
    by code_simp
  have p: "getProjectOwners exMembersConfig = [''lead'']"
    by code_simp
  have e: "fileOwners minimatch codeUnitCompare ?g [''src/a.ts''] = []"
    by code_simp
  from no_entry_when_selection_empty [OF h1 h2] h1 d p e show ?thesis by blast
qed

subsection \<open>Bare directory patterns\<close>

text \<open>
  C7, as stated, covers the override map and the default-owners map, and every path
  beneath the directory. The two maps are looked up with the pattern as written:
  with the bare pattern \<^verbatim>\<open>src\<close> the file \<^verbatim>\<open>src/a.ts\<close> passes the include list, yet
  neither lookup finds an owner list for it. And the wildcards of the normalised
  pattern do not match a leading dot: \<^verbatim>\<open>src/.env\<close> lies beneath \<^verbatim>\<open>src\<close> and the include
  list \<^verbatim>\<open>src\<close> does not admit it.
\<close>

theorem bare_pattern_override_counterexample:
  "minimatch ''src/a.ts'' ''src/**/*''
   \<and> shouldIncludeFile minimatch exIncludeConfig ''src/a.ts''
   \<and> getOverrideOwners minimatch exIncludeConfig ''src/a.ts'' = None
   \<and> getDefaultOwners minimatch exIncludeConfig ''src/a.ts'' = None
   \<and> \<not> filePatternMatches minimatch ''src/.env'' ''src''
   \<and> \<not> shouldIncludeFile minimatch exDotConfig ''src/.env''"
  by code_simp

text \<open>
  C7, amended. For a plain pattern of the include list or the exclude list, both the
  pattern followed by \<^verbatim>\<open>/**/*\<close> and the pattern itself are tried and either suffices;
  with the reference matcher the pattern matches the literal path and every path
  beneath that directory whose segments below it are visible (do not start with a
  dot), so an include list holding the pattern admits those paths and an exclude list
  holding it rejects them. The override map and the default-owners map are looked up
  with the patterns as written: a map holding only the plain pattern gives its list
  for the literal path and none for a path beneath, and in general a lookup finds
  nothing exactly when the matcher accepts the path for none of the patterns.
\<close>

theorem bare_pattern_normalisation:
  assumes "plainPattern pattern" and "visiblePath rest"
  shows "(\<forall>path. filePatternMatches mm path pattern \<longleftrightarrow>
            mm path (pattern @ ''/**/*'') \<or> mm path pattern)
       \<and> filePatternMatches minimatch pattern pattern
       \<and> filePatternMatches minimatch (pattern @ ''/'' @ rest) pattern
       \<and> (cfg_include cfg = Some inc \<and> pattern \<in> set inc \<and> cfg_exclude cfg = None \<longrightarrow>
            shouldIncludeFile minimatch cfg pattern
            \<and> shouldIncludeFile minimatch cfg (pattern @ ''/'' @ rest))
       \<and> (cfg_exclude cfg = Some exc \<and> pattern \<in> set exc \<longrightarrow>
            \<not> shouldIncludeFile minimatch cfg pattern
            \<and> \<not> shouldIncludeFile minimatch cfg (pattern @ ''/'' @ rest))
       \<and> (cfg_overrides cfg = Some [(pattern, ows)] \<longrightarrow>
            getOverrideOwners minimatch cfg pattern = Some ows
            \<and> getOverrideOwners minimatch cfg (pattern @ ''/'' @ rest) = None)
       \<and> (cfg_defaultOwners cfg = Some [(pattern, ows)] \<longrightarrow>
            getDefaultOwners minimatch cfg pattern = Some ows
            \<and> getDefaultOwners minimatch cfg (pattern @ ''/'' @ rest) = None)
       \<and> (getOverrideOwners mm cfg path = None \<longleftrightarrow>
            (case cfg_overrides cfg of None \<Rightarrow> True
             | Some tbl \<Rightarrow> \<forall>p \<in> set (map fst tbl). \<not> mm path p))
       \<and> (getDefaultOwners mm cfg path = None \<longleftrightarrow>
            (case cfg_defaultOwners cfg of None \<Rightarrow> True
             | Some tbl \<Rightarrow> \<forall>p \<in> set (map fst tbl). \<not> mm path p))"
proof -
  note np = plainPattern_normalized [OF assms(1)]
  note lit = minimatch_literal [OF assms(1)]
  note ben = minimatch_beneath [OF assms]
  note nben = minimatch_not_beneath [OF assms]
  have a: "\<forall>path. filePatternMatches mm path pattern \<longleftrightarrow>
            mm path (pattern @ ''/**/*'') \<or> mm path pattern"
    by (simp add: filePatternMatches_def np)
  have b: "filePatternMatches minimatch pattern pattern"
    using lit by (simp add: filePatternMatches_def)
  have c: "filePatternMatches minimatch (pattern @ ''/'' @ rest) pattern"
    using ben by (simp add: filePatternMatches_def np)
  have d: "cfg_include cfg = Some inc \<and> pattern \<in> set inc \<and> cfg_exclude cfg = None \<longrightarrow>
            shouldIncludeFile minimatch cfg pattern
            \<and> shouldIncludeFile minimatch cfg (pattern @ ''/'' @ rest)"
    using b c by (auto simp: shouldIncludeFile_def Let_def list_ex_iff)
  have e: "cfg_exclude cfg = Some exc \<and> pattern \<in> set exc \<longrightarrow>
            \<not> shouldIncludeFile minimatch cfg pattern
            \<and> \<not> shouldIncludeFile minimatch cfg (pattern @ ''/'' @ rest)"
    using b c by (auto simp: shouldIncludeFile_def Let_def list_ex_iff split: option.splits)
  have f: "cfg_overrides cfg = Some [(pattern, ows)] \<longrightarrow>
            getOverrideOwners minimatch cfg pattern = Some ows
            \<and> getOverrideOwners minimatch cfg (pattern @ ''/'' @ rest) = None"
    using lit nben by (simp add: getOverrideOwners_def sortedPatterns_def)
  have g: "cfg_defaultOwners cfg = Some [(pattern, ows)] \<longrightarrow>
            getDefaultOwners minimatch cfg pattern = Some ows
            \<and> getDefaultOwners minimatch cfg (pattern @ ''/'' @ rest) = None"
    using lit nben by (simp add: getDefaultOwners_def sortedPatterns_def)
  have h: "getOverrideOwners mm cfg path = None \<longleftrightarrow>
            (case cfg_overrides cfg of None \<Rightarrow> True
             | Some tbl \<Rightarrow> \<forall>p \<in> set (map fst tbl). \<not> mm path p)"
    by (simp add: getOverrideOwners_def lookup_None_iff split: option.splits)
  have i: "getDefaultOwners mm cfg path = None \<longleftrightarrow>
            (case cfg_defaultOwners cfg of None \<Rightarrow> True
             | Some tbl \<Rightarrow> \<forall>p \<in> set (map fst tbl). \<not> mm path p)"
    by (simp add: getDefaultOwners_def lookup_None_iff split: option.splits)
  from a b c d e f g h i show ?thesis by blast
qed

theorem bare_pattern_normalisation_witness:
  "plainPattern ''src'' \<and> visiblePath ''lib/a.ts''
   \<and> cfg_include exDotConfig = Some [''src''] \<and> cfg_exclude exDotConfig = None
   \<and> filePatternMatches minimatch ''src'' ''src''
   \<and> filePatternMatches minimatch (''src'' @ ''/'' @ ''lib/a.ts'') ''src''
   \<and> shouldIncludeFile minimatch exDotConfig (''src'' @ ''/'' @ ''lib/a.ts'')
   \<and> \<not> shouldIncludeFile minimatch exDotConfig ''docs/a.md''
   \<and> getOverrideOwners minimatch exIncludeConfig ''src'' = Some [''team'']
   \<and> getOverrideOwners minimatch exIncludeConfig ''src/lib/a.ts'' = None"
proof -
  have h1: "plainPattern ''src''" by code_simp
  have h2: "visiblePath ''lib/a.ts''" by code_simp
  have i: "cfg_include exDotConfig = Some [''src''] \<and> cfg_exclude exDotConfig = None"
    by (simp add: exDotConfig_def emptyConfig_def)
  have e: "\<not> shouldIncludeFile minimatch exDotConfig ''docs/a.md''
   \<and> getOverrideOwners minimatch exIncludeConfig ''src'' = Some [''team'']
   \<and> getOverrideOwners minimatch exIncludeConfig ''src/lib/a.ts'' = None"
    by code_simp
  from bare_pattern_normalisation [OF h1 h2, of minimatch exDotConfig "[''src'']"]
  have k: "filePatternMatches minimatch ''src'' ''src''
     \<and> filePatternMatches minimatch (''src'' @ ''/'' @ ''lib/a.ts'') ''src''
     \<and> (cfg_include exDotConfig = Some [''src''] \<and> ''src'' \<in> set [''src'']
           \<and> cfg_exclude exDotConfig = None \<longrightarrow>
         shouldIncludeFile minimatch exDotConfig ''src''
         \<and> shouldIncludeFile minimatch exDotConfig (''src'' @ ''/'' @ ''lib/a.ts''))"
    by blast
  have m: "''src'' \<in> set [''src'']" by simp
  from k i m h1 h2 e show ?thesis by blast
qed

subsection \<open>Duplicate owners\<close>




subsection \<open>Number of owners\<close>

text \<open>
  C3, as stated, bounds the owners of every emitted file by \<^verbatim>\<open>maxOwners()\<close>, override
  or not. An override list is emitted as configured: with the default bound 3, an
  override of four names gives an entry of four owners.
\<close>

theorem override_owner_count_counterexample:
  "getMaxOwners exWideOverrideConfig = 3
   \<and> fileOwners minimatch codeUnitCompare
        (exGenerator exWideOverrideConfig [(''src/secrets.yml'', [(''alice@x.org'', 5)])]) []
      = [(''src/secrets.yml'', [''ann'', ''ben'', ''cy'', ''dee''])]"
  by code_simp

text \<open>
  C3, amended. The owners selected from a tally number at most \<^verbatim>\<open>maxOwners()\<close>, and
  an entry of a file that matches no override has at most
  \<open>max (maxOwners()) (minOwners())\<close> owners, since supplementation stops at
  \<^verbatim>\<open>minOwners()\<close>; so at most \<^verbatim>\<open>maxOwners()\<close> when \<^verbatim>\<open>minOwners()\<close> does not exceed it.
\<close>

theorem tally_owner_count_bound:
  assumes "(path, owners) \<in> set (fileOwners mm lc g allFiles)"
    and "getOverrideOwners mm (config g) path = None"
  shows "int (length owners) \<le> max (getMaxOwners (config g)) (getMinOwners (config g))
       \<and> (getMinOwners (config g) \<le> getMaxOwners (config g)
            \<longrightarrow> int (length owners) \<le> getMaxOwners (config g))
       \<and> (\<forall>c. int (length (topOwners (getMaxOwners (config g)) (minCommits g) (emailToUsername g)
                   (validContributors (config g) (emailToUsername g) c)))
                \<le> max 0 (getMaxOwners (config g)))"
proof -
  obtain c where c: "owners = tallyOwners mm g path c" "owners \<noteq> []"
    using entry_without_override [OF assms] by blast
  have "int (length owners) \<le> max 0 (max (getMaxOwners (config g)) (getMinOwners (config g)))"
    unfolding c(1) by (rule length_tallyOwners)
  moreover have "0 < int (length owners)" using c(2) by simp
  ultimately have a: "int (length owners) \<le> max (getMaxOwners (config g)) (getMinOwners (config g))"
    by linarith
  then have b: "getMinOwners (config g) \<le> getMaxOwners (config g)
            \<longrightarrow> int (length owners) \<le> getMaxOwners (config g)"
    by linarith
  from a b length_topOwners show ?thesis by blast
qed

theorem tally_owner_count_bound_witness:
  "getOverrideOwners minimatch (config (exGenerator exSupplementConfig
       [(''src/a.ts'', [(''alice@x.org'', 5), (''bob@x.org'', 2)])])) ''src/a.ts'' = None
   \<and> fileOwners minimatch codeUnitCompare (exGenerator exSupplementConfig
       [(''src/a.ts'', [(''alice@x.org'', 5), (''bob@x.org'', 2)])]) []
      = [(''src/a.ts'', [''alice'', ''bob'', ''dora'', ''lead''])]
   \<and> int (length [''alice'', ''bob'', ''dora'', ''lead''])
      \<le> max (getMaxOwners exSupplementConfig) (getMinOwners exSupplementConfig)"
proof -
  let ?g = "exGenerator exSupplementConfig [(''src/a.ts'', [(''alice@x.org'', 5), (''bob@x.org'', 2)])]"
  have e: "fileOwners minimatch codeUnitCompare ?g [] = [(''src/a.ts'', [''alice'', ''bob'', ''dora'', ''lead''])]"
    by code_simp
  have h1: "(''src/a.ts'', [''alice'', ''bob'', ''dora'', ''lead'']) \<in> set (fileOwners minimatch codeUnitCompare ?g [])"
    unfolding e by simp
  have h2: "getOverrideOwners minimatch (config ?g) ''src/a.ts'' = None"
    by code_simp
  have cfg: "config ?g = exSupplementConfig" by (simp add: exGenerator_def)
  from tally_owner_count_bound [OF h1 h2] h2 e cfg show ?thesis by simp
qed

subsection \<open>Order of entries and repeatable output\<close>

text \<open>
  C4, as stated, promises the same text from two runs on the same file set, tallies
  and configuration. The second line of the header is the reading of the clock when
  the run generates, and the third the cutoff date that the constructor derives
  from the clock: two runs on consecutive days write different texts, with
  different second and third lines.
\<close>

theorem clock_dependent_output_counterexample:
  "fst (generateCodeowners minimatch codeUnitCompare ''2026-01-01'' ''10:00:00''
          (exGenerator emptyConfig exTwoFiles) [''README.md'', ''src/a.ts''])
   \<noteq> fst (generateCodeowners minimatch codeUnitCompare ''2026-01-02'' ''10:00:07''
          ((exGenerator emptyConfig exTwoFiles)\<lparr>sinceDate := ''2025-01-02''\<rparr>) [''README.md'', ''src/a.ts''])
   \<and> codeownersLines minimatch codeUnitCompare ''2026-01-01'' ''10:00:00''
          (exGenerator emptyConfig exTwoFiles) [''README.md'', ''src/a.ts''] ! 1
       = ''# Generated on 2026-01-01 10:00:00''
   \<and> codeownersLines minimatch codeUnitCompare ''2026-01-02'' ''10:00:07''
          ((exGenerator emptyConfig exTwoFiles)\<lparr>sinceDate := ''2025-01-02''\<rparr>) [''README.md'', ''src/a.ts''] ! 1
       = ''# Generated on 2026-01-02 10:00:07''
   \<and> codeownersLines minimatch codeUnitCompare ''2026-01-01'' ''10:00:00''
          (exGenerator emptyConfig exTwoFiles) [''README.md'', ''src/a.ts''] ! 2
       = ''# Analysis period: since 2025-01-01''
   \<and> codeownersLines minimatch codeUnitCompare ''2026-01-02'' ''10:00:07''
          ((exGenerator emptyConfig exTwoFiles)\<lparr>sinceDate := ''2025-01-02''\<rparr>) [''README.md'', ''src/a.ts''] ! 2
       = ''# Analysis period: since 2025-01-02''"
  by code_simp

text \<open>
  C4, amended. The entries are sorted by file path in the order of the comparison
  \<^verbatim>\<open>localeCompare\<close>, provided that comparison is total and transitive; when it compares
  by code unit, that is the lexicographic order of the paths. Two runs on the same
  file set, tallies and configuration write texts of the same number of lines that
  agree in every line but the second and the third, the lines \<^verbatim>\<open># Generated on\<close> and
  \<^verbatim>\<open># Analysis period: since\<close> with the clock's reading and the cutoff date; with the
  same reading and cutoff the texts are the same.
\<close>

theorem entries_sorted_output_up_to_clock:
  assumes "\<forall>a b. lc a b \<le> 0 \<or> lc b a \<le> 0"
    and "\<forall>a b c. lc a b \<le> 0 \<and> lc b c \<le> 0 \<longrightarrow> lc a c \<le> 0"
  shows "sorted_wrt (\<lambda>a b. lc a b \<le> 0) (map fst (fileOwners mm lc g allFiles))
       \<and> sorted (map fst (fileOwners mm codeUnitCompare g allFiles))
       \<and> (codeownersLines mm lc d1 t1 g allFiles)[1 := l, 2 := l']
           = (codeownersLines mm lc d2 t2 (g\<lparr>sinceDate := s2\<rparr>) allFiles)[1 := l, 2 := l']
       \<and> length (codeownersLines mm lc d1 t1 g allFiles) > 2
       \<and> length (codeownersLines mm lc d2 t2 (g\<lparr>sinceDate := s2\<rparr>) allFiles)
           = length (codeownersLines mm lc d1 t1 g allFiles)"
proof -
  have a: "sorted_wrt (\<lambda>a b. lc a b \<le> 0) (map fst (fileOwners mm lc g allFiles))"
    using assms by (rule sorted_wrt_fileOwners)
  have "sorted_wrt (\<lambda>a b. codeUnitCompare a b \<le> 0) (map fst (fileOwners mm codeUnitCompare g allFiles))"
    by (rule sorted_wrt_fileOwners) (auto simp: codeUnitCompare_le)
  then have b: "sorted (map fst (fileOwners mm codeUnitCompare g allFiles))"
    by (simp add: codeUnitCompare_le)
  have c: "(codeownersLines mm lc d1 t1 g allFiles)[1 := l, 2 := l']
           = (codeownersLines mm lc d2 t2 (g\<lparr>sinceDate := s2\<rparr>) allFiles)[1 := l, 2 := l']"
    by (rule codeownersLines_clock_since)
  obtain s where "renderEntries (maxPathLength (fileOwners mm lc g allFiles)) (fileOwners mm lc g allFiles) []
        (headerLines d1 t1 g) = headerLines d1 t1 g @ s"
    using renderEntries_suffix [OF refl] by blast
  then have d: "length (codeownersLines mm lc d1 t1 g allFiles) > 2"
    by (simp add: codeownersLines_def Let_def headerLines_def)
  have e: "length (codeownersLines mm lc d2 t2 (g\<lparr>sinceDate := s2\<rparr>) allFiles)
           = length (codeownersLines mm lc d1 t1 g allFiles)"
    using arg_cong [OF c, of length] by simp
  from a b c d e show ?thesis by blast
qed

theorem entries_sorted_output_up_to_clock_witness:
  "map fst (fileOwners minimatch codeUnitCompare (exGenerator emptyConfig exTwoFiles) []) = [''README.md'', ''src/a.ts'']
   \<and> sorted_wrt (\<lambda>a b. codeUnitCompare a b \<le> 0) [''README.md'', ''src/a.ts'']
   \<and> (codeownersLines minimatch codeUnitCompare ''2026-01-01'' ''10:00:00'' (exGenerator emptyConfig exTwoFiles) [])
        [1 := ''# Generated on'', 2 := ''# Analysis period''] =
      (codeownersLines minimatch codeUnitCompare ''2026-01-02'' ''10:00:07''
         ((exGenerator emptyConfig exTwoFiles)\<lparr>sinceDate := ''2025-01-02''\<rparr>) [])
        [1 := ''# Generated on'', 2 := ''# Analysis period'']"
proof -
  have h1: "\<forall>a b. codeUnitCompare a b \<le> 0 \<or> codeUnitCompare b a \<le> 0"
    by (auto simp: codeUnitCompare_le)
  have h2: "\<forall>a b c. codeUnitCompare a b \<le> 0 \<and> codeUnitCompare b c \<le> 0 \<longrightarrow> codeUnitCompare a c \<le> 0"
    by (auto simp: codeUnitCompare_le)
  have e: "map fst (fileOwners minimatch codeUnitCompare (exGenerator emptyConfig exTwoFiles) []) = [''README.md'', ''src/a.ts'']"
    by code_simp
  from entries_sorted_output_up_to_clock [OF h1 h2, of minimatch "exGenerator emptyConfig exTwoFiles" "[]"
      "''2026-01-01''" "''10:00:00''" "''# Generated on''" "''# Analysis period''" "''2026-01-02''" "''10:00:07''"
      "''2025-01-02''"] e
  show ?thesis by simp
qed

subsection \<open>Cancellation\<close>

text \<open>
  C9, as stated, holds from the moment cancellation is requested. The signal is read
  only at the top of each iteration of the analysis loop: a request made after the
  last file's check (here during the query of the second of two files) is never
  read, the run completes and the output file is written.
\<close>

theorem late_cancellation_counterexample:
  "abortRequested (exEnv (Some 2)) = Some 2
   \<and> queries (runAnalysis minimatch codeUnitCompare (exEnv (Some 2))) = [''README.md'', ''src/a.ts'']
   \<and> finalPhase (runAnalysis minimatch codeUnitCompare (exEnv (Some 2))) = Complete
   \<and> written (runAnalysis minimatch codeUnitCompare (exEnv (Some 2))) \<noteq> None"
  by code_simp

text \<open>
  C9, amended. When the configuration has loaded and cancellation is requested after
  \<open>k\<close> checks of the signal, with the check of a further file still to come, the
  history queries issued are those of the first \<open>k\<close> files and no other, the run ends
  in the phase \<^verbatim>\<open>analyzing\<close> with no error and no summary, which is neither the phase
  \<^verbatim>\<open>complete\<close> nor the phase \<^verbatim>\<open>error\<close>, and the output file is not written. A request
  made after the last check changes nothing: the run is the run without request.
\<close>

theorem cancellation_between_files:
  assumes "loadConfig env = Inr cfg" and "abortRequested env = Some k"
  shows "(k < length (getAllFiles mm cfg (lsFiles env)) \<longrightarrow>
            queries (runAnalysis mm lc env) = take k (getAllFiles mm cfg (lsFiles env))
          \<and> written (runAnalysis mm lc env) = None
          \<and> finalPhase (runAnalysis mm lc env) = Analyzing
          \<and> finalError (runAnalysis mm lc env) = None
          \<and> finalStats (runAnalysis mm lc env) = None)
       \<and> (length (getAllFiles mm cfg (lsFiles env)) \<le> k \<longrightarrow>
            runAnalysis mm lc env = runAnalysis mm lc (env\<lparr>abortRequested := None\<rparr>))"
proof -
  let ?files = "getAllFiles mm cfg (lsFiles env)"
  let ?g0 = "\<lparr>sinceDate = since env, minCommits = 1, emailToUsername = Map.empty,
              fileStats = [], config = cfg, gitLogCalls = []\<rparr>"
  have a: "queries (runAnalysis mm lc env) = take k ?files
          \<and> written (runAnalysis mm lc env) = None
          \<and> finalPhase (runAnalysis mm lc env) = Analyzing
          \<and> finalError (runAnalysis mm lc env) = None
          \<and> finalStats (runAnalysis mm lc env) = None" if k: "k < length ?files"
  proof -
    obtain r g1 where r: "analyzeLoop (signalAborted (Some k)) (gitLog env) 0 ?files [] ?g0 = (r, g1)"
      by (cases "analyzeLoop (signalAborted (Some k)) (gitLog env) 0 ?files [] ?g0")
    from analyzeLoop_abort [OF k, of "signalAborted (Some k)" 0 "gitLog env" "[]" ?g0]
      signalAborted_first [of k] r
    have "r = Inl ''Operation aborted''" "gitLogCalls g1 = take k ?files" by auto
    with r show ?thesis
      using assms by (simp add: runAnalysis_def analyzeRepository_def catchError_def)
  qed
  have b: "runAnalysis mm lc env = runAnalysis mm lc (env\<lparr>abortRequested := None\<rparr>)"
    if k: "length ?files \<le> k"
  proof -
    have "analyzeLoop (signalAborted (Some k)) (gitLog env) 0 ?files [] ?g0
        = analyzeLoop (signalAborted None) (gitLog env) 0 ?files [] ?g0"
      using signalAborted_late [OF k] by (rule analyzeLoop_cong)
    then have "analyzeRepository mm (signalAborted (abortRequested env)) (lsFiles env) (gitLog env) ?g0
        = analyzeRepository mm (signalAborted None) (lsFiles env) (gitLog env) ?g0"
      using assms(2) by (simp add: analyzeRepository_def)
    then show ?thesis
      using assms(1) by (simp add: runAnalysis_def split: prod.splits sum.splits option.splits)
  qed
  from a b show ?thesis by blast
qed

theorem cancellation_between_files_witness:
  "loadConfig (exEnv (Some 1)) = Inr emptyConfig
   \<and> abortRequested (exEnv (Some 1)) = Some 1
   \<and> getAllFiles minimatch emptyConfig (lsFiles (exEnv (Some 1))) = [''README.md'', ''src/a.ts'']
   \<and> queries (runAnalysis minimatch codeUnitCompare (exEnv (Some 1))) = [''README.md'']
   \<and> written (runAnalysis minimatch codeUnitCompare (exEnv (Some 1))) = None
   \<and> finalPhase (runAnalysis minimatch codeUnitCompare (exEnv (Some 1))) = Analyzing"
proof -
  have h1: "loadConfig (exEnv (Some 1)) = Inr emptyConfig" by (simp add: exEnv_def)
  have h2: "abortRequested (exEnv (Some 1)) = Some 1" by (simp add: exEnv_def)
  have f: "getAllFiles minimatch emptyConfig (lsFiles (exEnv (Some 1))) = [''README.md'', ''src/a.ts'']"
    by code_simp
  from cancellation_between_files [OF h1 h2, of minimatch codeUnitCompare] h1 h2 f
  show ?thesis by simp
qed

subsection \<open>The ownership summary\<close>

text \<open>
  C8, as stated, credits one owner per emitted file, the first, also for files
  resolved by an override. For such a file the summary loops over the override's
  owners and counts each: one file with the override \<^verbatim>\<open>@ann ben\<close> credits both names,
  so two credits stand against one emitted file.
\<close>

theorem override_credit_counterexample:
  "fileOwners minimatch codeUnitCompare
      (exGenerator exPairOverrideConfig [(''src/secrets.yml'', [(''bob@x.org'', 1)])]) []
     = [(''src/secrets.yml'', [''@ann'', ''ben''])]
   \<and> stats (getOwnershipStats minimatch
      (exGenerator exPairOverrideConfig [(''src/secrets.yml'', [(''bob@x.org'', 1)])]))
     = [(''ann'', 1), (''ben'', 1)]
   \<and> totalFiles (getOwnershipStats minimatch
      (exGenerator exPairOverrideConfig [(''src/secrets.yml'', [(''bob@x.org'', 1)])])) = 1"
  by code_simp

text \<open>
  C8, amended. With \<^verbatim>\<open>maxOwners()\<close> at least 1, the summary counts every entry that the
  loop over \<^verbatim>\<open>fileStats\<close> emits once in \<^verbatim>\<open>totalFiles\<close>; an entry resolved from the
  tally credits its first listed owner and no other, an entry resolved by an
  override credits each of its listed owners, without the marker; and the number of
  distinct owners is the number of counters.
\<close>

theorem summary_credits:
  assumes "1 \<le> getMaxOwners (config g)"
  shows "totalFiles (getOwnershipStats mm g) = length (statsEntries mm g)
       \<and> statCount (stats (getOwnershipStats mm g)) u
           = (\<Sum>e\<leftarrow>statsEntries mm g. int (count_list (creditedOwners mm g e) u))
       \<and> uniqueOwners (getOwnershipStats mm g) = length (stats (getOwnershipStats mm g))"
proof -
  obtain st n where sn: "statsLoop mm g (fileStats g) ([], 0) = (st, n)"
    by (cases "statsLoop mm g (fileStats g) ([], 0)")
  from statsLoop_entries [OF assms, of mm "fileStats g" "[]" 0] sn
  have "n = length (statsEntries mm g)"
    "statCount st u = (\<Sum>e\<leftarrow>statsEntries mm g. int (count_list (creditedOwners mm g e) u))"
    by (simp_all add: statsEntries_def statCount_def)
  then show ?thesis by (simp add: getOwnershipStats_def sn)
qed

theorem summary_credits_witness:
  "1 \<le> getMaxOwners (config (exGenerator exPairOverrideConfig exThreeFiles))
   \<and> statsEntries minimatch (exGenerator exPairOverrideConfig exThreeFiles)
       = [(''src/a.ts'', [''alice'', ''bob'']), (''src/secrets.yml'', [''@ann'', ''ben'']),
          (''README.md'', [''bob'', ''alice''])]
   \<and> totalFiles (getOwnershipStats minimatch (exGenerator exPairOverrideConfig exThreeFiles)) = 3
   \<and> statCount (stats (getOwnershipStats minimatch (exGenerator exPairOverrideConfig exThreeFiles))) ''bob'' = 1
   \<and> statCount (stats (getOwnershipStats minimatch (exGenerator exPairOverrideConfig exThreeFiles))) ''ben'' = 1"
proof -
  let ?g = "exGenerator exPairOverrideConfig exThreeFiles"
  have h: "1 \<le> getMaxOwners (config ?g)" by code_simp
  have e: "statsEntries minimatch ?g
       = [(''src/a.ts'', [''alice'', ''bob'']), (''src/secrets.yml'', [''@ann'', ''ben'']),
          (''README.md'', [''bob'', ''alice''])]"
    by code_simp
  have c1: "(\<Sum>e\<leftarrow>statsEntries minimatch ?g. int (count_list (creditedOwners minimatch ?g e) ''bob'')) = 1"
    by code_simp
  have c2: "(\<Sum>e\<leftarrow>statsEntries minimatch ?g. int (count_list (creditedOwners minimatch ?g e) ''ben'')) = 1"
    by code_simp
  from summary_credits [OF h, of minimatch "''bob''"] summary_credits [OF h, of minimatch "''ben''"]
    h e c1 c2
  show ?thesis by simp
qed

end
